theory Spec2Isabelle
  imports Main "HOL-Library.Word"
begin

section \<open>Export writer: decimal output of numbers\<close>

text \<open>
  \<^verbatim>\<open>sal_uLong\<close> and \<^verbatim>\<open>tools::Long\<close> are the platform's \<^verbatim>\<open>unsigned long\<close> and
  \<^verbatim>\<open>long\<close>; they are modelled as 64-bit words (LP64). A stream is the list of
  characters written to it so far.
\<close>

type_synonym sal_uLong = "64 word"
type_synonym SvStream = "char list"

text \<open>
  The \<^verbatim>\<open>do ... while (nVal)\<close> loop of \<^verbatim>\<open>lcl_OutLongExt\<close>: the state is the buffer,
  the index \<^verbatim>\<open>i\<close> and \<^verbatim>\<open>nVal\<close>. Writing below index 0 leaves the array; that
  is the result \<open>None\<close>.
\<close>

function OutLongExt_loop :: "char list \<Rightarrow> nat \<Rightarrow> sal_uLong \<Rightarrow> (char list \<times> nat) option" where
  "OutLongExt_loop aBuf i nVal =
     (if i = 0 then None
      else if nVal div 10 \<noteq> 0
        then OutLongExt_loop (aBuf[i - 1 := char_of (48 + unat (nVal mod 10))]) (i - 1) (nVal div 10)
        else Some (aBuf[i - 1 := char_of (48 + unat (nVal mod 10))], i - 1))"
  by pat_completeness auto
termination
  by (relation "measure (\<lambda>(aBuf, i, nVal). i)") auto

text \<open>
  \<^verbatim>\<open>SvStream::WriteCharPtr\<close> appends the characters of a C string: everything up to
  the first NUL.
\<close>

definition WriteCharPtr :: "SvStream \<Rightarrow> char list \<Rightarrow> SvStream" where
  "WriteCharPtr rStrm p = rStrm @ takeWhile (\<lambda>c. c \<noteq> CHR 0x00) p"

text \<open>
  \<^verbatim>\<open>lcl_OutLongExt\<close>. The array \<^verbatim>\<open>aBuf\<close> of 28 characters is not initialised by
  the source; its content on entry is the argument \<open>aBuf\<close>.
\<close>

definition lcl_OutLongExt :: "char list \<Rightarrow> SvStream \<Rightarrow> sal_uLong \<Rightarrow> bool \<Rightarrow> SvStream option" where
  "lcl_OutLongExt aBuf rStrm nVal bNeg =
     (case OutLongExt_loop (aBuf[27 := CHR 0x00]) 27 nVal of
        None \<Rightarrow> None
      | Some (aBuf1, i) \<Rightarrow>
          if bNeg
          then (if i = 0 then None
                else Some (WriteCharPtr rStrm (drop (i - 1) (aBuf1[i - 1 := CHR ''-'']))))
          else Some (WriteCharPtr rStrm (drop i aBuf1)))"

text \<open>
  \<^verbatim>\<open>Writer::OutLong\<close>: \<^verbatim>\<open>nVal = -nVal\<close> is the negation of the machine (it wraps at
  the least value), and the cast to \<^verbatim>\<open>sal_uLong\<close> keeps the bits.
\<close>

definition OutLong :: "char list \<Rightarrow> SvStream \<Rightarrow> 64 word \<Rightarrow> SvStream option" where
  "OutLong aBuf rStrm nVal =
     (let bNeg = (sint nVal < 0);
          nVal1 = (if bNeg then - nVal else nVal)
      in lcl_OutLongExt aBuf rStrm nVal1 bNeg)"

definition OutULong :: "char list \<Rightarrow> SvStream \<Rightarrow> sal_uLong \<Rightarrow> SvStream option" where
  "OutULong aBuf rStrm nVal = lcl_OutLongExt aBuf rStrm nVal False"

text \<open>
  The decimal notation of a natural number, as the claim words it: its digits, most
  significant first, and the single digit 0 for zero.
\<close>

fun decimal_digits :: "nat \<Rightarrow> char list" where
  "decimal_digits n =
     (if n < 10 then [char_of (48 + n)]
      else decimal_digits (n div 10) @ [char_of (48 + n mod 10)])"

text \<open>The number a string of decimal digits denotes.\<close>

definition digits_value :: "char list \<Rightarrow> nat" where
  "digits_value ds = foldl (\<lambda>acc c. 10 * acc + (of_char c - 48)) 0 ds"

declare OutLongExt_loop.simps [simp del]
declare decimal_digits.simps [simp del]

section \<open>Quartz backend: drawing a text layout in runs\<close>

text \<open>
  \<^verbatim>\<open>AquaGraphicsBackend::drawTextLayout\<close>. A layout is the sequence of glyphs and
  positions that \<^verbatim>\<open>GetNextGlyph\<close> yields. Positions are floating-point points of
  the platform; their type is left open, and the three computations on them are taken as
  functions: \<open>flip_y\<close> for \<^verbatim>\<open>CGPointMake(x, -y)\<close>, \<open>upright_adjust\<close> for the shift by
  ascent minus descent, \<open>rotate_pos\<close> for the affine rotation. The rotation of the font
  is a value of a type with a zero; only its test against zero matters here.
\<close>

record GlyphItem =
  glyphId :: nat
  IsVertical :: bool

record 'p point_ops =
  flip_y :: "'p \<Rightarrow> 'p"
  upright_adjust :: "'p \<Rightarrow> 'p"
  rotate_pos :: "'p \<Rightarrow> 'p"

record 'r CoreTextStyle =
  mfFontRotation :: 'r
  mnHeight :: int

text \<open>
  One call of \<^verbatim>\<open>CTFontDrawGlyphs\<close>: the index the two pointers point to, the count,
  the glyphs and positions read from there, and whether \<^verbatim>\<open>CGContextRotateCTM\<close> was
  applied around the call.
\<close>

record 'p draw_call =
  dc_nStartIndex :: nat
  dc_nLen :: nat
  drawn_glyphs :: "nat list"
  drawn_pos :: "'p list"
  rotated_ctm :: bool

text \<open>The first loop: the three vectors filled from the layout.\<close>

fun collect_glyphs ::
  "'p point_ops \<Rightarrow> ('r::zero) CoreTextStyle \<Rightarrow> (GlyphItem \<times> 'p) list
     \<Rightarrow> nat list \<times> 'p list \<times> bool list" where
  "collect_glyphs ops rStyle [] = ([], [], [])"
| "collect_glyphs ops rStyle ((pGlyph, aPos) # rest) =
     (let aGCPos = flip_y ops aPos;
          (bUprightGlyph, aGCPos1) =
            (if mfFontRotation rStyle \<noteq> 0
             then (if IsVertical pGlyph then (True, upright_adjust ops aGCPos)
                   else (False, rotate_pos ops aGCPos))
             else (False, aGCPos));
          (aGlyphIds, aGlyphPos, aGlyphOrientation) = collect_glyphs ops rStyle rest
      in (glyphId pGlyph # aGlyphIds, aGCPos1 # aGlyphPos, bUprightGlyph # aGlyphOrientation))"

text \<open>
  \<^verbatim>\<open>std::find(aIt, aGlyphOrientation.cend(), v)\<close> on indices: the first index from
  \<open>aIt\<close> on that holds \<open>v\<close>, the length of the vector when there is none.
\<close>

definition find_from :: "bool list \<Rightarrow> nat \<Rightarrow> bool \<Rightarrow> nat" where
  "find_from aGlyphOrientation aIt v =
     aIt + length (takeWhile (\<lambda>x. x \<noteq> v) (drop aIt aGlyphOrientation))"

lemma find_from_progress:
  "aIt < length ori \<Longrightarrow> aIt < find_from ori aIt (\<not> ori ! aIt)"
  by (cases "drop aIt ori") (auto simp: find_from_def hd_drop_conv_nth[symmetric])

lemma find_from_le_length: "aIt \<le> length ori \<Longrightarrow> find_from ori aIt v \<le> length ori"
proof -
  assume a: "aIt \<le> length ori"
  have "length (takeWhile (\<lambda>x. x \<noteq> v) (drop aIt ori)) \<le> length (drop aIt ori)"
    by (rule length_takeWhile_le)
  then show ?thesis using a by (simp add: find_from_def)
qed

text \<open>The second loop: one draw call for each run found.\<close>

function draw_runs ::
  "bool \<Rightarrow> nat list \<Rightarrow> 'p list \<Rightarrow> bool list \<Rightarrow> nat \<Rightarrow> 'p draw_call list" where
  "draw_runs bRotation aGlyphIds aGlyphPos aGlyphOrientation aIt =
     (if aIt < length aGlyphOrientation
      then (let bUprightGlyph = aGlyphOrientation ! aIt;
                aNext = find_from aGlyphOrientation aIt (\<not> bUprightGlyph)
            in \<lparr> dc_nStartIndex = aIt, dc_nLen = aNext - aIt,
                 drawn_glyphs = take (aNext - aIt) (drop aIt aGlyphIds),
                 drawn_pos = take (aNext - aIt) (drop aIt aGlyphPos),
                 rotated_ctm = (bRotation \<and> \<not> bUprightGlyph) \<rparr>
               # draw_runs bRotation aGlyphIds aGlyphPos aGlyphOrientation aNext)
      else [])"
  by pat_completeness auto
termination
proof (relation "measure (\<lambda>(bRotation, aGlyphIds, aGlyphPos, ori, aIt). length ori - aIt)")
  show "wf (measure (\<lambda>(bRotation, aGlyphIds, aGlyphPos, ori, aIt). length ori - aIt))" by simp
next
  fix bRotation :: bool and aGlyphIds :: "nat list" and aGlyphPos :: "'p list"
    and aGlyphOrientation :: "bool list" and aIt x xa
  assume "aIt < length aGlyphOrientation" "x = aGlyphOrientation ! aIt"
    "xa = find_from aGlyphOrientation aIt (\<not> x)"
  then show "((bRotation, aGlyphIds, aGlyphPos, aGlyphOrientation, xa),
              (bRotation, aGlyphIds, aGlyphPos, aGlyphOrientation, aIt))
             \<in> measure (\<lambda>(bRotation, aGlyphIds, aGlyphPos, ori, aIt). length ori - aIt)"
    using find_from_progress[of aIt aGlyphOrientation] by simp
qed

declare draw_runs.simps [simp del]

text \<open>
  \<^verbatim>\<open>drawTextLayout\<close>: nothing is drawn for a font of height zero or when no glyph was
  collected. The result is the sequence of draw calls; the settings of the graphics
  context around them (colour, antialiasing, stroke for faux bold) are not modelled.
\<close>

definition drawTextLayout ::
  "'p point_ops \<Rightarrow> ('r::zero) CoreTextStyle \<Rightarrow> (GlyphItem \<times> 'p) list \<Rightarrow> 'p draw_call list" where
  "drawTextLayout ops rStyle rLayout =
     (if mnHeight rStyle = 0 then []
      else (let (aGlyphIds, aGlyphPos, aGlyphOrientation) = collect_glyphs ops rStyle rLayout
            in if aGlyphIds = [] then []
               else draw_runs (mfFontRotation rStyle \<noteq> 0) aGlyphIds aGlyphPos aGlyphOrientation 0))"

text \<open>
  What the proofs below show of every draw call \<open>r\<close>: it is a run of the orientation
  vector, maximal to the right, and it draws the glyphs and positions of that run.
\<close>

definition run_ok :: "bool \<Rightarrow> nat list \<Rightarrow> 'p list \<Rightarrow> bool list \<Rightarrow> 'p draw_call \<Rightarrow> bool" where
  "run_ok rot ids pos ori r \<longleftrightarrow>
     0 < dc_nLen r \<and> dc_nStartIndex r + dc_nLen r \<le> length ori \<and>
     (\<forall>j. dc_nStartIndex r \<le> j \<and> j < dc_nStartIndex r + dc_nLen r \<longrightarrow> ori ! j = ori ! dc_nStartIndex r) \<and>
     (dc_nStartIndex r + dc_nLen r < length ori \<longrightarrow> ori ! (dc_nStartIndex r + dc_nLen r) \<noteq> ori ! dc_nStartIndex r) \<and>
     drawn_glyphs r = take (dc_nLen r) (drop (dc_nStartIndex r) ids) \<and>
     drawn_pos r = take (dc_nLen r) (drop (dc_nStartIndex r) pos) \<and>
     rotated_ctm r = (rot \<and> \<not> ori ! dc_nStartIndex r)"

section \<open>Links administration: the object an item names\<close>

text \<open>
  \<^verbatim>\<open>DocumentLinksAdministrationManager\<close> looks an item name up among the DDE
  bookmarks, sections and tables of the document. What the source takes from outside
  this file is a parameter: the lower-casing of the application's character class, the
  URL decoding of \<^verbatim>\<open>INetURLObject::decode\<close> and the character \<^verbatim>\<open>cMarkSeparator\<close>.
\<close>

record link_env =
  lowercase :: "string \<Rightarrow> string"
  decode :: "string \<Rightarrow> string"
  cMarkSeparator :: char

text \<open>
  A node is its index in the document's nodes array; a position is a node and a content
  index. A mark carries whether it is a \<^verbatim>\<open>DdeBookmark\<close> (the \<^verbatim>\<open>dynamic_cast\<close>),
  and a server object is known by what it serves.
\<close>

type_synonym node = nat
type_synonym SwPosition = "node \<times> nat"

datatype server_source = OfBookmark nat | OfSection node | OfTable node

datatype SwServerObject = ServerObject server_source

record IMark =
  mk_name :: string
  mk_is_dde :: bool
  mk_expanded :: bool
  mk_pos :: SwPosition
  mk_other_pos :: SwPosition
  mk_ref_object :: "SwServerObject option"

text \<open>
  A section format: the name of its section (\<open>None\<close> when \<^verbatim>\<open>GetSection()\<close> is null)
  and its content index (\<open>None\<close> when null). A content index says whether it lies in
  the nodes array of the document (the comparison of the two \<^verbatim>\<open>GetNodes()\<close>) and which
  node it points to; for a section format that node is the section node.
\<close>

record SwNodeIndex =
  idx_in_doc_nodes :: bool
  idx_node :: node

record SwSectionFormat =
  sf_section_name :: "string option"
  sf_content_idx :: "SwNodeIndex option"

text \<open>
  A table format: its name and what \<^verbatim>\<open>SwTable::FindTable\<close> gives, reduced to what
  \<^verbatim>\<open>lcl_FindTable\<close> reads: the first sorted box (\<open>None\<close> when the pointer is null)
  and its start node (\<open>None\<close> when null), for which \<^verbatim>\<open>FindTableNode()\<close> is
  \<open>idx_node\<close>.
\<close>

record SwTableBox =
  bx_stt_nd :: "SwNodeIndex option"

record SwTable =
  tab_first_box :: "SwTableBox option"

record SwTableFormat =
  tf_name :: string
  tf_table :: "SwTable option"

record SwNodeRange =
  aStart :: node
  aEnd :: node

text \<open>
  The document, as far as these functions read and change it. The searches of the
  document that live elsewhere (\<^verbatim>\<open>FindFlyByName\<close>, \<^verbatim>\<open>GotoOutline\<close>), the
  properties of nodes and the reference objects of sections and tables are functions.
\<close>

record SwDoc =
  doc_marks :: "IMark list"
  doc_sections :: "SwSectionFormat list"
  doc_tables :: "SwTableFormat list"
  FindFlyByName :: "string \<Rightarrow> SwNodeIndex option option"
  IsNoTextNode :: "node \<Rightarrow> bool"
  EndOfSectionNode :: "node \<Rightarrow> node"
  GotoOutline :: "string \<Rightarrow> node option"
  OutLineNds :: "node list"
  AttrOutlineLevel :: "node \<Rightarrow> int"
  EndOfContent :: node
  section_object :: "node \<Rightarrow> SwServerObject option"
  table_object :: "node \<Rightarrow> SwServerObject option"
  link_servers :: "SwServerObject list"

record FindItem =
  m_Item :: string
  pTableNd :: "node option"
  pSectNd :: "node option"

definition FindItem_new :: "string \<Rightarrow> FindItem" where
  "FindItem_new aS = \<lparr> m_Item = aS, pTableNd = None, pSectNd = None \<rparr>"

text \<open>
  \<^verbatim>\<open>lcl_FindDdeBookmark\<close>: the loop over all marks, here with the index of the mark
  at hand; the result is the index of the bookmark found.
\<close>

fun FindDdeBookmark_loop :: "link_env \<Rightarrow> IMark list \<Rightarrow> nat \<Rightarrow> string \<Rightarrow> bool \<Rightarrow> nat option" where
  "FindDdeBookmark_loop env [] ppMark sNameLc bCaseSensitive = None"
| "FindDdeBookmark_loop env (pBkmk # rest) ppMark sNameLc bCaseSensitive =
     (if mk_is_dde pBkmk \<and>
         ((bCaseSensitive \<and> mk_name pBkmk = sNameLc) \<or>
          (\<not> bCaseSensitive \<and> lowercase env (mk_name pBkmk) = sNameLc))
      then Some ppMark
      else FindDdeBookmark_loop env rest (Suc ppMark) sNameLc bCaseSensitive)"

definition lcl_FindDdeBookmark :: "link_env \<Rightarrow> IMark list \<Rightarrow> string \<Rightarrow> bool \<Rightarrow> nat option" where
  "lcl_FindDdeBookmark env rMarkAccess rName bCaseSensitive =
     (let sNameLc = (if bCaseSensitive then rName else lowercase env rName)
      in FindDdeBookmark_loop env rMarkAccess 0 sNameLc bCaseSensitive)"

text \<open>
  \<^verbatim>\<open>lcl_FindSection\<close> and \<^verbatim>\<open>lcl_FindTable\<close> return \<^verbatim>\<open>false\<close> to stop the loop
  of the caller, with the node stored in the item.
\<close>

definition lcl_FindSection :: "link_env \<Rightarrow> SwSectionFormat \<Rightarrow> FindItem \<Rightarrow> bool \<Rightarrow> bool \<times> FindItem" where
  "lcl_FindSection env pSectFormat pItem bCaseSensitive =
     (case sf_section_name pSectFormat of
        None \<Rightarrow> (True, pItem)
      | Some name \<Rightarrow>
          (let sNm = (if bCaseSensitive then name else lowercase env name);
               sCompare = (if bCaseSensitive then m_Item pItem else lowercase env (m_Item pItem))
           in if sNm = sCompare
              then (case sf_content_idx pSectFormat of
                      None \<Rightarrow> (True, pItem)
                    | Some pIdx \<Rightarrow>
                        if idx_in_doc_nodes pIdx
                        then (False, pItem\<lparr> pSectNd := Some (idx_node pIdx) \<rparr>)
                        else (True, pItem))
              else (True, pItem)))"

definition lcl_FindTable :: "link_env \<Rightarrow> SwTableFormat \<Rightarrow> FindItem \<Rightarrow> bool \<times> FindItem" where
  "lcl_FindTable env pTableFormat pItem =
     (let sNm = lowercase env (tf_name pTableFormat)
      in if sNm = m_Item pItem
         then (case tf_table pTableFormat of
                 None \<Rightarrow> (True, pItem)
               | Some pTmpTable \<Rightarrow>
                   (case tab_first_box pTmpTable of
                      None \<Rightarrow> (True, pItem)
                    | Some pFBox \<Rightarrow>
                        (case bx_stt_nd pFBox of
                           None \<Rightarrow> (True, pItem)
                         | Some sttNd \<Rightarrow>
                             if idx_in_doc_nodes sttNd
                             then (False, pItem\<lparr> pTableNd := Some (idx_node sttNd) \<rparr>)
                             else (True, pItem))))
         else (True, pItem))"

text \<open>The two \<^verbatim>\<open>for\<close> loops of the callers, left at the first \<^verbatim>\<open>false\<close>.\<close>

fun for_sections :: "link_env \<Rightarrow> SwSectionFormat list \<Rightarrow> FindItem \<Rightarrow> bool \<Rightarrow> FindItem" where
  "for_sections env [] aPara bCaseSensitive = aPara"
| "for_sections env (pFormat # rest) aPara bCaseSensitive =
     (case lcl_FindSection env pFormat aPara bCaseSensitive of
        (False, aPara1) \<Rightarrow> aPara1
      | (True, aPara1) \<Rightarrow> for_sections env rest aPara1 bCaseSensitive)"

fun for_tables :: "link_env \<Rightarrow> SwTableFormat list \<Rightarrow> FindItem \<Rightarrow> FindItem" where
  "for_tables env [] aPara = aPara"
| "for_tables env (pFormat # rest) aPara =
     (case lcl_FindTable env pFormat aPara of
        (False, aPara1) \<Rightarrow> aPara1
      | (True, aPara1) \<Rightarrow> for_tables env rest aPara1)"

subsection \<open>GetData, SetData, CreateLinkSource\<close>

text \<open>
  The \<^verbatim>\<open>while (true)\<close> loop of each function runs with \<^verbatim>\<open>bCaseSensitive\<close> true
  and then false. The loop functions return \<open>Some\<close> for a \<^verbatim>\<open>return\<close> inside the
  loop and \<open>None\<close> when the loop is left by \<^verbatim>\<open>break\<close>.

  \<^verbatim>\<open>SwServerObject(x).GetData(rValue, rMimeType)\<close> is the parameter \<open>srv\<close>: from the
  object served, the MIME type and the value on entry to the result and the value on
  return.
\<close>

function GetData_loop ::
  "link_env \<Rightarrow> (server_source \<Rightarrow> 'm \<Rightarrow> 'v \<Rightarrow> bool \<times> 'v) \<Rightarrow> SwDoc \<Rightarrow> string \<Rightarrow> 'm \<Rightarrow> 'v \<Rightarrow> bool
     \<Rightarrow> (bool \<times> 'v) option" where
  "GetData_loop env srv doc rItem rMimeType rValue bCaseSensitive =
     (case lcl_FindDdeBookmark env (doc_marks doc) rItem bCaseSensitive of
        Some pBkmk \<Rightarrow> Some (srv (OfBookmark pBkmk) rMimeType rValue)
      | None \<Rightarrow>
          (let sItem = (if bCaseSensitive then rItem else lowercase env rItem);
               aPara = for_sections env (doc_sections doc) (FindItem_new sItem) bCaseSensitive
           in case pSectNd aPara of
                Some nd \<Rightarrow> Some (srv (OfSection nd) rMimeType rValue)
              | None \<Rightarrow>
                  if \<not> bCaseSensitive then None
                  else GetData_loop env srv doc rItem rMimeType rValue False))"
  by pat_completeness auto
termination
  by (relation "measure (\<lambda>(env, srv, doc, rItem, rMimeType, rValue, b). if b then 1 else 0)") auto

definition GetData ::
  "link_env \<Rightarrow> (server_source \<Rightarrow> 'm \<Rightarrow> 'v \<Rightarrow> bool \<times> 'v) \<Rightarrow> SwDoc \<Rightarrow> string \<Rightarrow> 'm \<Rightarrow> 'v
     \<Rightarrow> bool \<times> 'v" where
  "GetData env srv doc rItem rMimeType rValue =
     (case GetData_loop env srv doc rItem rMimeType rValue True of
        Some r \<Rightarrow> r
      | None \<Rightarrow>
          (let aPara = for_tables env (doc_tables doc) (FindItem_new (lowercase env rItem))
           in case pTableNd aPara of
                Some nd \<Rightarrow> srv (OfTable nd) rMimeType rValue
              | None \<Rightarrow> (False, rValue)))"

text \<open>
  \<^verbatim>\<open>SetData\<close> returns nothing and changes nothing. So that its search can be spoken
  of, the model returns where the function is left: at the bookmark found, at the
  section found, or at its end, with the item of the table search.
\<close>

datatype SetData_exit = AtBookmark nat | AtSection node | AtEnd FindItem

function SetData_loop :: "link_env \<Rightarrow> SwDoc \<Rightarrow> string \<Rightarrow> bool \<Rightarrow> SetData_exit option" where
  "SetData_loop env doc rItem bCaseSensitive =
     (case lcl_FindDdeBookmark env (doc_marks doc) rItem bCaseSensitive of
        Some pBkmk \<Rightarrow> Some (AtBookmark pBkmk)
      | None \<Rightarrow>
          (let sItem = (if bCaseSensitive then rItem else lowercase env rItem);
               aPara = for_sections env (doc_sections doc) (FindItem_new sItem) bCaseSensitive
           in case pSectNd aPara of
                Some nd \<Rightarrow> Some (AtSection nd)
              | None \<Rightarrow>
                  if \<not> bCaseSensitive then None
                  else SetData_loop env doc rItem False))"
  by pat_completeness auto
termination
  by (relation "measure (\<lambda>(env, doc, rItem, b). if b then 1 else 0)") auto

definition SetData :: "link_env \<Rightarrow> SwDoc \<Rightarrow> string \<Rightarrow> SetData_exit" where
  "SetData env doc rItem =
     (case SetData_loop env doc rItem True of
        Some r \<Rightarrow> r
      | None \<Rightarrow>
          (let sItem = lowercase env rItem
           in AtEnd (for_tables env (doc_tables doc) (FindItem_new sItem))))"






declare GetData_loop.simps [simp del]
declare SetData_loop.simps [simp del]

subsection \<open>SelectServerObj\<close>

text \<open>
  \<^verbatim>\<open>OUString::indexOf\<close>: the index of the first occurrence of a character, -1 when
  there is none.
\<close>

definition indexOf :: "string \<Rightarrow> char \<Rightarrow> int" where
  "indexOf s c = (if c \<in> set s then int (length (takeWhile (\<lambda>x. x \<noteq> c) s)) else - 1)"

text \<open>
  \<^verbatim>\<open>Seek_Entry\<close> on the sorted vector of outline nodes: the position of the node, which
  is the number of entries before it.
\<close>

definition Seek_Entry :: "node list \<Rightarrow> node \<Rightarrow> nat" where
  "Seek_Entry rOutlNds pNd = length (takeWhile (\<lambda>x. x < pNd) rOutlNds)"

text \<open>The empty \<^verbatim>\<open>for\<close> loop that looks for the end of the outline section.\<close>

function outline_end :: "SwDoc \<Rightarrow> int \<Rightarrow> nat \<Rightarrow> nat" where
  "outline_end doc nLvl nTmpPos =
     (if nTmpPos < length (OutLineNds doc) \<and>
         nLvl < AttrOutlineLevel doc (OutLineNds doc ! nTmpPos) - 1
      then outline_end doc nLvl (Suc nTmpPos)
      else nTmpPos)"
  by pat_completeness auto
termination
  by (relation "measure (\<lambda>(doc, nLvl, nTmpPos). length (OutLineNds doc) - nTmpPos)") auto

text \<open>
  The result of \<^verbatim>\<open>SelectServerObj\<close>: the value returned, \<^verbatim>\<open>rpPam\<close> (a cursor between
  two positions, \<open>None\<close> for the null pointer) and \<^verbatim>\<open>roRange\<close>.
\<close>

type_synonym select_result = "bool \<times> (SwPosition \<times> SwPosition) option \<times> SwNodeRange option"

function SelectServerObj_loop :: "link_env \<Rightarrow> SwDoc \<Rightarrow> string \<Rightarrow> bool \<Rightarrow> select_result option" where
  "SelectServerObj_loop env doc sItem bCaseSensitive =
     (case lcl_FindDdeBookmark env (doc_marks doc) sItem bCaseSensitive of
        Some pBkmk \<Rightarrow>
          (let rpPam = (if mk_expanded (doc_marks doc ! pBkmk)
                        then Some (mk_pos (doc_marks doc ! pBkmk), mk_other_pos (doc_marks doc ! pBkmk))
                        else None)
           in Some (rpPam \<noteq> None, rpPam, None))
      | None \<Rightarrow>
          (let aPara = FindItem_new (if bCaseSensitive then sItem else lowercase env sItem);
               aPara1 = (if doc_sections doc \<noteq> []
                         then for_sections env (doc_sections doc) aPara bCaseSensitive
                         else aPara)
           in case pSectNd aPara1 of
                Some nd \<Rightarrow>
                  Some (True, None, Some \<lparr> aStart = nd + 1, aEnd = EndOfSectionNode doc nd \<rparr>)
              | None \<Rightarrow>
                  if \<not> bCaseSensitive then None
                  else SelectServerObj_loop env doc sItem False))"
  by pat_completeness auto
termination
  by (relation "measure (\<lambda>(env, doc, sItem, b). if b then 1 else 0)") auto

definition SelectServerObj_search :: "link_env \<Rightarrow> SwDoc \<Rightarrow> string \<Rightarrow> select_result" where
  "SelectServerObj_search env doc sItem =
     (case SelectServerObj_loop env doc sItem True of
        Some r \<Rightarrow> r
      | None \<Rightarrow> (False, None, None))"

text \<open>
  \<^verbatim>\<open>SelectServerObj\<close>. The assignments \<^verbatim>\<open>sItem = rCC.lowercase(sItem)\<close> and, in the
  table branch, \<^verbatim>\<open>sName = rCC.lowercase(sName)\<close> are kept as the bindings \<open>sItem1\<close>
  and \<open>sName1\<close>: \<open>aPara\<close> was built from \<open>sName\<close> before, and holds its own copy.
\<close>

definition SelectServerObj :: "link_env \<Rightarrow> SwDoc \<Rightarrow> string \<Rightarrow> select_result" where
  "SelectServerObj env doc rStr =
     (let sItem = decode env rStr;
          nPos = indexOf sItem (cMarkSeparator env)
      in if nPos \<noteq> - 1
         then (let sName = take (nat nPos) sItem;
                   sCmp = drop (nat nPos + 1) sItem;
                   sItem1 = lowercase env sItem;
                   aPara = FindItem_new sName
               in if sCmp = ''table''
                  then (let sName1 = lowercase env sName;
                            aPara1 = for_tables env (doc_tables doc) aPara
                        in case pTableNd aPara1 of
                             Some nd \<Rightarrow>
                               (True, None, Some \<lparr> aStart = nd, aEnd = EndOfSectionNode doc nd + 1 \<rparr>)
                           | None \<Rightarrow> (False, None, None))
                  else if sCmp = ''frame''
                  then (case FindFlyByName doc sName of
                          None \<Rightarrow> (False, None, None)
                        | Some None \<Rightarrow> (False, None, None)
                        | Some (Some pIdx) \<Rightarrow>
                            if \<not> IsNoTextNode doc (idx_node pIdx)
                            then (True, None,
                                  Some \<lparr> aStart = idx_node pIdx + 1,
                                         aEnd = EndOfSectionNode doc (idx_node pIdx) \<rparr>)
                            else (False, None, None))
                  else if sCmp = ''region''
                  then SelectServerObj_search env doc sName
                  else if sCmp = ''outline''
                  then (case GotoOutline doc sName of
                          None \<Rightarrow> (False, None, None)
                        | Some pNd \<Rightarrow>
                            (let nLvl = AttrOutlineLevel doc pNd - 1;
                                 nTmpPos = outline_end doc nLvl (Suc (Seek_Entry (OutLineNds doc) pNd))
                             in (True, None,
                                 Some \<lparr> aStart = pNd,
                                        aEnd = (if nTmpPos < length (OutLineNds doc)
                                                then OutLineNds doc ! nTmpPos
                                                else EndOfContent doc) \<rparr>)))
                  else (False, None, None))
         else SelectServerObj_search env doc sItem)"

declare SelectServerObj_loop.simps [simp del]
declare outline_end.simps [simp del]

subsection \<open>Matching by name, as the claims word it\<close>

text \<open>
  The notions the claims use, written on names and lists, apart from the loops above: a
  mark is a DDE bookmark of a given name, exactly or up to case; a section format has a
  section of a given name with content in the nodes array of the document; a table
  format has the given name up to case and a table in that nodes array. The first such
  object of a list is the one a search in list order meets first.
\<close>

definition first_index :: "('a \<Rightarrow> bool) \<Rightarrow> 'a list \<Rightarrow> nat option" where
  "first_index P xs =
     (if list_ex P xs then Some (length (takeWhile (\<lambda>x. \<not> P x) xs)) else None)"

definition dde_named :: "link_env \<Rightarrow> bool \<Rightarrow> string \<Rightarrow> IMark \<Rightarrow> bool" where
  "dde_named env exact s m \<longleftrightarrow>
     mk_is_dde m \<and>
     (if exact then mk_name m = s else lowercase env (mk_name m) = lowercase env s)"

definition section_named :: "link_env \<Rightarrow> bool \<Rightarrow> string \<Rightarrow> SwSectionFormat \<Rightarrow> bool" where
  "section_named env exact s f \<longleftrightarrow>
     (case sf_section_name f of
        None \<Rightarrow> False
      | Some nm \<Rightarrow> if exact then nm = s else lowercase env nm = lowercase env s) \<and>
     (case sf_content_idx f of None \<Rightarrow> False | Some idx \<Rightarrow> idx_in_doc_nodes idx)"

definition table_node :: "SwTableFormat \<Rightarrow> node option" where
  "table_node t =
     (case tf_table t of
        None \<Rightarrow> None
      | Some tab \<Rightarrow>
          (case tab_first_box tab of
             None \<Rightarrow> None
           | Some box \<Rightarrow>
               (case bx_stt_nd box of
                  None \<Rightarrow> None
                | Some idx \<Rightarrow> if idx_in_doc_nodes idx then Some (idx_node idx) else None)))"

definition table_named :: "link_env \<Rightarrow> string \<Rightarrow> SwTableFormat \<Rightarrow> bool" where
  "table_named env s t \<longleftrightarrow>
     lowercase env (tf_name t) = lowercase env s \<and> table_node t \<noteq> None"

definition first_dde :: "link_env \<Rightarrow> bool \<Rightarrow> string \<Rightarrow> SwDoc \<Rightarrow> nat option" where
  "first_dde env exact s doc = first_index (dde_named env exact s) (doc_marks doc)"

definition first_section :: "link_env \<Rightarrow> bool \<Rightarrow> string \<Rightarrow> SwDoc \<Rightarrow> node option" where
  "first_section env exact s doc =
     Option.bind (List.find (section_named env exact s) (doc_sections doc))
       (\<lambda>f. map_option idx_node (sf_content_idx f))"

definition first_table :: "link_env \<Rightarrow> string \<Rightarrow> SwDoc \<Rightarrow> node option" where
  "first_table env s doc =
     Option.bind (List.find (table_named env s) (doc_tables doc)) table_node"

text \<open>Lower-casing a lower-cased string changes nothing.\<close>

definition lowercase_idem :: "link_env \<Rightarrow> bool" where
  "lowercase_idem env \<longleftrightarrow> (\<forall>s. lowercase env (lowercase env s) = lowercase env s)"


text \<open>
  The test of \<^verbatim>\<open>lcl_FindSection\<close> against the string it compares with, used in
  the proofs.
\<close>

definition sec_cmp :: "link_env \<Rightarrow> bool \<Rightarrow> string \<Rightarrow> SwSectionFormat \<Rightarrow> bool" where
  "sec_cmp env b item f \<longleftrightarrow>
     (case sf_section_name f of
        None \<Rightarrow> False
      | Some nm \<Rightarrow> (if b then nm else lowercase env nm) = (if b then item else lowercase env item)) \<and>
     (case sf_content_idx f of None \<Rightarrow> False | Some idx \<Rightarrow> idx_in_doc_nodes idx)"


subsection \<open>An example document\<close>

text \<open>
  A small environment and document on which the functions are evaluated: lower-casing
  that knows the letters S, T and X, no URL escapes, the separator \<open>|\<close>; two DDE
  bookmarks (the second not expanded), one section, one table, one text frame and three
  outline headings.
\<close>

definition lower_char :: "char \<Rightarrow> char" where
  "lower_char c =
     (if c = CHR ''S'' then CHR ''s'' else if c = CHR ''T'' then CHR ''t''
      else if c = CHR ''X'' then CHR ''x'' else c)"

definition env_ex :: link_env where
  "env_ex = \<lparr> lowercase = map lower_char, decode = (\<lambda>s. s), cMarkSeparator = CHR ''|'' \<rparr>"

definition doc_ex :: SwDoc where
  "doc_ex =
     \<lparr> doc_marks =
         [\<lparr> mk_name = ''X'', mk_is_dde = True, mk_expanded = True, mk_pos = (3, 0),
            mk_other_pos = (4, 2), mk_ref_object = None \<rparr>,
          \<lparr> mk_name = ''y'', mk_is_dde = True, mk_expanded = False, mk_pos = (5, 0),
            mk_other_pos = (5, 0), mk_ref_object = None \<rparr>],
       doc_sections =
         [\<lparr> sf_section_name = Some ''Sec'',
            sf_content_idx = Some \<lparr> idx_in_doc_nodes = True, idx_node = 20 \<rparr> \<rparr>],
       doc_tables =
         [\<lparr> tf_name = ''T'',
            tf_table = Some \<lparr> tab_first_box =
              Some \<lparr> bx_stt_nd = Some \<lparr> idx_in_doc_nodes = True, idx_node = 7 \<rparr> \<rparr> \<rparr> \<rparr>],
       FindFlyByName =
         (\<lambda>s. if s = ''fly'' then Some (Some \<lparr> idx_in_doc_nodes = True, idx_node = 30 \<rparr>) else None),
       IsNoTextNode = (\<lambda>n. False),
       EndOfSectionNode = (\<lambda>n. n + 5),
       GotoOutline = (\<lambda>s. if s = ''H1'' then Some 40 else None),
       OutLineNds = [40, 45, 50],
       AttrOutlineLevel = (\<lambda>n. if n = 45 then 2 else 1),
       EndOfContent = 100,
       section_object = (\<lambda>n. None),
       table_object = (\<lambda>n. None),
       link_servers = [] \<rparr>"


section \<open>Quartz backend: the faked SFNT font\<close>

text \<open>
  \<^verbatim>\<open>AquaSalGraphics::GetRawFontData\<close> builds a font file in a byte vector from the
  tables of a font. A font is the function from a table tag to the bytes of that table,
  empty for a table the font does not have; \<^verbatim>\<open>GetFontTable(tag, nullptr)\<close> is the
  size, \<^verbatim>\<open>GetFontTable(tag, dest)\<close> copies the bytes to \<^verbatim>\<open>dest\<close> and returns the
  size. A write that would leave the vector is undefined in the source and ends the model
  with \<open>Undefined\<close>.
\<close>

type_synonym byte = "8 word"
type_synonym font_face = "string \<Rightarrow> byte list"

record raw_font_result =
  ret :: bool
  rBuffer :: "byte list"
  pJustCFF :: "bool option"
  warned :: bool

datatype raw_font_outcome = Returned raw_font_result | Undefined

definition GetFontTable_size :: "font_face \<Rightarrow> string \<Rightarrow> int" where
  "GetFontTable_size pMacFont tag = int (length (pMacFont tag))"

definition GetFontTable_into :: "font_face \<Rightarrow> string \<Rightarrow> byte list \<Rightarrow> nat \<Rightarrow> (int \<times> byte list) option" where
  "GetFontTable_into pMacFont tag buf nOfs =
     (if nOfs + length (pMacFont tag) \<le> length buf
      then Some (int (length (pMacFont tag)),
                 take nOfs buf @ pMacFont tag @ drop (nOfs + length (pMacFont tag)) buf)
      else None)"

text \<open>\<^verbatim>\<open>std::vector::resize\<close>: cut, or filled up with zero bytes.\<close>

definition resize :: "nat \<Rightarrow> byte list \<Rightarrow> byte list" where
  "resize n buf = take n buf @ replicate (n - length buf) 0"

text \<open>
  \<^verbatim>\<open>FakeDirEntry\<close> writes the tag, leaves the four bytes of the checksum as they are,
  writes offset and length with the most significant byte first, and moves the
  destination on by 16.
\<close>

definition FakeDirEntry :: "string \<Rightarrow> nat \<Rightarrow> nat \<Rightarrow> byte list \<Rightarrow> nat \<Rightarrow> (byte list \<times> nat) option" where
  "FakeDirEntry aTag nOfs nLen buf rpDest =
     (if rpDest + 16 \<le> length buf
      then Some (buf[rpDest + 0 := of_char (aTag ! 0),
                     rpDest + 1 := of_char (aTag ! 1),
                     rpDest + 2 := of_char (aTag ! 2),
                     rpDest + 3 := of_char (aTag ! 3),
                     rpDest + 8 := of_nat (nOfs div 2 ^ 24),
                     rpDest + 9 := of_nat (nOfs div 2 ^ 16),
                     rpDest + 10 := of_nat (nOfs div 2 ^ 8),
                     rpDest + 11 := of_nat nOfs,
                     rpDest + 12 := of_nat (nLen div 2 ^ 24),
                     rpDest + 13 := of_nat (nLen div 2 ^ 16),
                     rpDest + 14 := of_nat (nLen div 2 ^ 8),
                     rpDest + 15 := of_nat nLen],
                 rpDest + 16)
      else None)"

text \<open>
  The state while the tables are written: the buffer, the running offset \<^verbatim>\<open>nOfs\<close>
  and the place of the next directory entry \<^verbatim>\<open>pFakeEntry\<close>. The source repeats one
  block for every table: fetch the table to \<^verbatim>\<open>&rBuffer[nOfs]\<close> and return false when
  the size differs, write the directory entry, advance \<^verbatim>\<open>nOfs\<close>. The block is
  \<open>table_step\<close>; the amount by which \<^verbatim>\<open>nOfs\<close> advances is an argument of its own,
  since the block of the \<open>CFF\<close> table advances by \<^verbatim>\<open>nGlyfSize\<close>.
\<close>

type_synonym write_state = "byte list \<times> nat \<times> nat"

definition failed :: "byte list \<Rightarrow> bool option \<Rightarrow> raw_font_outcome" where
  "failed buf jc = Returned \<lparr> ret = False, rBuffer = buf, pJustCFF = jc, warned = False \<rparr>"

definition table_step ::
  "font_face \<Rightarrow> bool option \<Rightarrow> string \<Rightarrow> int \<Rightarrow> int \<Rightarrow> write_state \<Rightarrow> raw_font_outcome + write_state" where
  "table_step pMacFont jc aTag nSize nAdvance st =
     (case st of (buf, nOfs, pFakeEntry) \<Rightarrow>
        (case GetFontTable_into pMacFont aTag buf nOfs of
           None \<Rightarrow> Inl Undefined
         | Some (nRead, buf1) \<Rightarrow>
             if nSize \<noteq> nRead then Inl (failed buf1 jc)
             else (case FakeDirEntry aTag nOfs (nat nSize) buf1 pFakeEntry of
                     None \<Rightarrow> Inl Undefined
                   | Some (buf2, pFakeEntry1) \<Rightarrow> Inr (buf2, nat (int nOfs + nAdvance), pFakeEntry1))))"

definition and_then ::
  "raw_font_outcome + write_state \<Rightarrow> (write_state \<Rightarrow> raw_font_outcome + write_state)
     \<Rightarrow> raw_font_outcome + write_state" where
  "and_then r f = (case r of Inl x \<Rightarrow> Inl x | Inr st \<Rightarrow> f st)"

text \<open>The loop \<^verbatim>\<open>while ((nTableCount >> nLog2) > 1) ++nLog2\<close>.\<close>

lemma shift_gt_one_less: "Suc 0 < (n::nat) div 2 ^ k \<Longrightarrow> k < n"
proof -
  assume "Suc 0 < n div 2 ^ k"
  then have "2 ^ k \<le> n" by (metis div_less not_le not_less_zero zero_less_one less_trans One_nat_def)
  moreover have "k < 2 ^ k" by (rule less_exp)
  ultimately show ?thesis by linarith
qed

function log2_loop :: "nat \<Rightarrow> nat \<Rightarrow> nat" where
  "log2_loop nTableCount nLog2 =
     (if 1 < nTableCount div 2 ^ nLog2 then log2_loop nTableCount (Suc nLog2) else nLog2)"
  by pat_completeness auto
termination
  by (relation "measure (\<lambda>(nTableCount, nLog2). nTableCount - nLog2)")
     (auto dest!: shift_gt_one_less)

declare log2_loop.simps [simp del]

definition GetRawFontData :: "font_face \<Rightarrow> byte list \<Rightarrow> bool option \<Rightarrow> raw_font_outcome" where
  "GetRawFontData pMacFont rBuffer0 pJustCFF0 =
     (let nCffSize = GetFontTable_size pMacFont ''CFF '';
          jc = (case pJustCFF0 of None \<Rightarrow> None | Some _ \<Rightarrow> Some (0 < nCffSize))
      in if jc = Some True
         then (case GetFontTable_into pMacFont ''CFF '' (resize (nat nCffSize) rBuffer0) 0 of
                 None \<Rightarrow> Undefined
               | Some (nCffRead, buf) \<Rightarrow>
                   Returned \<lparr> ret = (nCffRead = nCffSize), rBuffer = buf, pJustCFF = jc,
                              warned = False \<rparr>)
         else
         (let nHeadSize = GetFontTable_size pMacFont ''head'';
              nMaxpSize = GetFontTable_size pMacFont ''maxp'';
              nCmapSize = GetFontTable_size pMacFont ''cmap'';
              nNameSize = GetFontTable_size pMacFont ''name'';
              nHheaSize = GetFontTable_size pMacFont ''hhea'';
              nHmtxSize = GetFontTable_size pMacFont ''hmtx''
          in if nHeadSize \<le> 0 \<or> nMaxpSize \<le> 0 \<or> nCmapSize \<le> 0 \<or> nNameSize \<le> 0 \<or>
                nHheaSize \<le> 0 \<or> nHmtxSize \<le> 0
             then failed rBuffer0 jc
             else
             (let nLocaSize = (if nCffSize \<le> 0 then GetFontTable_size pMacFont ''loca'' else 0);
                  nGlyfSize = (if nCffSize \<le> 0 \<and> 0 < nLocaSize
                               then GetFontTable_size pMacFont ''glyf'' else 0)
              in if nCffSize \<le> 0 \<and> (nLocaSize \<le> 0 \<or> nGlyfSize \<le> 0)
                 then failed rBuffer0 jc
                 else
                 (let nPrepSize = (if nGlyfSize \<noteq> 0 then GetFontTable_size pMacFont ''prep'' else 0);
                      nCvtSize = (if nGlyfSize \<noteq> 0 then GetFontTable_size pMacFont ''cvt '' else 0);
                      nFpgmSize = (if nGlyfSize \<noteq> 0 then GetFontTable_size pMacFont ''fpgm'' else 0);
                      nTableCount = 7 + (if 0 < nPrepSize then 1 else 0) + (if 0 < nCvtSize then 1 else 0)
                                      + (if 0 < nFpgmSize then 1 else 0) + (if 0 < nGlyfSize then 1 else (0::int));
                      nFdirSize = 12 + 16 * nTableCount;
                      nTotalSize = nFdirSize + (nHeadSize + nMaxpSize + nNameSize + nCmapSize)
                                     + (if nGlyfSize \<noteq> 0 then nLocaSize + nGlyfSize else nCffSize)
                                     + (nHheaSize + nHmtxSize) + (nPrepSize + nCvtSize + nFpgmSize);
                      buf0 = resize (nat nTotalSize) rBuffer0;
                      buf1 = (if nTableCount < 16
                              then (let nLog2 = log2_loop (nat nTableCount) 0
                                    in buf0[1 := 1,
                                            5 := of_int nTableCount,
                                            7 := of_nat (nLog2 * 16),
                                            9 := of_nat nLog2,
                                            11 := of_int ((nTableCount - int nLog2) * 16)])
                              else buf0);
                      r1 = table_step pMacFont jc ''cmap'' nCmapSize nCmapSize (buf1, nat nFdirSize, 12);
                      r2 = (if nCvtSize \<noteq> 0
                            then and_then r1 (table_step pMacFont jc ''cvt '' nCvtSize nCvtSize) else r1);
                      r3 = (if nFpgmSize \<noteq> 0
                            then and_then r2 (table_step pMacFont jc ''fpgm'' nFpgmSize nFpgmSize) else r2);
                      r4 = (if nCffSize \<noteq> 0
                            then and_then r3 (table_step pMacFont jc ''CFF '' nCffSize nGlyfSize)
                            else and_then (and_then r3 (table_step pMacFont jc ''glyf'' nGlyfSize nGlyfSize))
                                   (table_step pMacFont jc ''loca'' nLocaSize nLocaSize));
                      r5 = and_then r4 (table_step pMacFont jc ''head'' nHeadSize nHeadSize);
                      r6 = and_then r5 (table_step pMacFont jc ''hhea'' nHheaSize nHheaSize);
                      r7 = and_then r6 (table_step pMacFont jc ''hmtx'' nHmtxSize nHmtxSize);
                      r8 = and_then r7 (table_step pMacFont jc ''maxp'' nMaxpSize nMaxpSize);
                      r9 = and_then r8 (table_step pMacFont jc ''name'' nNameSize nNameSize);
                      r10 = (if nPrepSize \<noteq> 0
                             then and_then r9 (table_step pMacFont jc ''prep'' nPrepSize nPrepSize) else r9)
                  in case r10 of
                       Inl x \<Rightarrow> x
                     | Inr (buf, nOfs, pFakeEntry) \<Rightarrow>
                         Returned \<lparr> ret = True, rBuffer = buf, pJustCFF = jc,
                                    warned = (int nOfs \<noteq> nTotalSize) \<rparr>))))"

text \<open>
  Reading a directory back: the offset and the length recorded in the entry with a given
  number, and the bytes of the buffer that such an entry points to.
\<close>

definition be32 :: "byte list \<Rightarrow> nat \<Rightarrow> nat" where
  "be32 buf i = unat (buf ! i) * 2 ^ 24 + unat (buf ! (i + 1)) * 2 ^ 16
                  + unat (buf ! (i + 2)) * 2 ^ 8 + unat (buf ! (i + 3))"

definition entry_tag :: "byte list \<Rightarrow> nat \<Rightarrow> byte list" where
  "entry_tag buf k = take 4 (drop (12 + 16 * k) buf)"

definition entry_offset :: "byte list \<Rightarrow> nat \<Rightarrow> nat" where
  "entry_offset buf k = be32 buf (12 + 16 * k + 8)"

definition entry_length :: "byte list \<Rightarrow> nat \<Rightarrow> nat" where
  "entry_length buf k = be32 buf (12 + 16 * k + 12)"

definition entry_bytes :: "byte list \<Rightarrow> nat \<Rightarrow> byte list" where
  "entry_bytes buf k = take (entry_length buf k) (drop (entry_offset buf k) buf)"

text \<open>
  Two fonts for the evaluation: an OpenType font with a \<open>CFF\<close> table and a TrueType
  font with \<open>glyf\<close> and \<open>loca\<close>; every table has a few bytes.
\<close>

definition cff_font :: font_face where
  "cff_font tag =
     (if tag = ''CFF '' then [1, 2, 3] else if tag = ''head'' then [4, 5]
      else if tag = ''maxp'' then [6] else if tag = ''cmap'' then [7, 8]
      else if tag = ''name'' then [9] else if tag = ''hhea'' then [10]
      else if tag = ''hmtx'' then [11] else [])"

definition ttf_font :: font_face where
  "ttf_font tag =
     (if tag = ''glyf'' then [1, 2, 3] else if tag = ''loca'' then [12, 13]
      else if tag = ''head'' then [4, 5]
      else if tag = ''maxp'' then [6] else if tag = ''cmap'' then [7, 8]
      else if tag = ''name'' then [9] else if tag = ''hhea'' then [10]
      else if tag = ''hmtx'' then [11] else [])"

text \<open>
  The blocks of \<^verbatim>\<open>GetRawFontData\<close> in sequence, for the proofs: a list of tag, size
  and advance, run from left to right with \<open>and_then\<close>; and the list the function runs
  for given sizes.
\<close>

fun run_steps ::
  "font_face \<Rightarrow> bool option \<Rightarrow> (string \<times> int \<times> int) list \<Rightarrow> raw_font_outcome + write_state
     \<Rightarrow> raw_font_outcome + write_state" where
  "run_steps pMacFont jc [] r = r"
| "run_steps pMacFont jc ((aTag, nSize, nAdvance) # rest) r =
     run_steps pMacFont jc rest (and_then r (table_step pMacFont jc aTag nSize nAdvance))"

text \<open>The offset at which the block with number \<open>k\<close> of a list starts.\<close>

definition step_offset :: "nat \<Rightarrow> (string \<times> int \<times> int) list \<Rightarrow> nat \<Rightarrow> nat" where
  "step_offset nOfs steps k = nat (int nOfs + sum_list (map (\<lambda>s. snd (snd s)) (take k steps)))"

text \<open>
  A list of blocks that fits a font: every tag has four characters, every size is the
  size of the table, and the advance lies between zero and the size.
\<close>

definition steps_ok :: "font_face \<Rightarrow> (string \<times> int \<times> int) list \<Rightarrow> bool" where
  "steps_ok pMacFont steps \<longleftrightarrow>
     list_all (\<lambda>s. length (fst s) = 4 \<and> fst (snd s) = int (length (pMacFont (fst s))) \<and>
                    0 \<le> snd (snd s) \<and> snd (snd s) \<le> fst (snd s)) steps"

text \<open>The blocks run for a font with a \<open>CFF\<close> table and \<^verbatim>\<open>pJustCFF\<close> null.\<close>

definition cff_steps :: "font_face \<Rightarrow> (string \<times> int \<times> int) list" where
  "cff_steps pMacFont =
     [(''cmap'', GetFontTable_size pMacFont ''cmap'', GetFontTable_size pMacFont ''cmap''),
      (''CFF '', GetFontTable_size pMacFont ''CFF '', 0),
      (''head'', GetFontTable_size pMacFont ''head'', GetFontTable_size pMacFont ''head''),
      (''hhea'', GetFontTable_size pMacFont ''hhea'', GetFontTable_size pMacFont ''hhea''),
      (''hmtx'', GetFontTable_size pMacFont ''hmtx'', GetFontTable_size pMacFont ''hmtx''),
      (''maxp'', GetFontTable_size pMacFont ''maxp'', GetFontTable_size pMacFont ''maxp''),
      (''name'', GetFontTable_size pMacFont ''name'', GetFontTable_size pMacFont ''name'')]"

definition cff_total :: "font_face \<Rightarrow> nat" where
  "cff_total pMacFont =
     124 + length (pMacFont ''cmap'') + length (pMacFont ''CFF '') + length (pMacFont ''head'')
       + length (pMacFont ''hhea'') + length (pMacFont ''hmtx'') + length (pMacFont ''maxp'')
       + length (pMacFont ''name'')"

definition has_required_tables :: "font_face \<Rightarrow> bool" where
  "has_required_tables pMacFont \<longleftrightarrow>
     pMacFont ''head'' \<noteq> [] \<and> pMacFont ''maxp'' \<noteq> [] \<and> pMacFont ''cmap'' \<noteq> [] \<and>
     pMacFont ''name'' \<noteq> [] \<and> pMacFont ''hhea'' \<noteq> [] \<and> pMacFont ''hmtx'' \<noteq> []"

section \<open>Export writer: Write, CopyNextPam, ResetWriter\<close>

text \<open>
  Cursors (\<^verbatim>\<open>SwPaM\<close>) are objects that the writer and its caller share by address, so
  they live in a store: a list of cells, the address being the index, a deleted or never
  allocated cell being \<open>None\<close>. A cursor has its point and mark (equal when no mark is
  set), its document and the next cursor of its ring.
\<close>

type_synonym addr = nat

record SwPaM =
  pam_point :: SwPosition
  pam_mark :: SwPosition
  pam_doc :: nat
  pam_next :: addr

type_synonym pam_store = "SwPaM option list"

definition lookup :: "pam_store \<Rightarrow> addr \<Rightarrow> SwPaM option" where
  "lookup h a = (if a < length h then h ! a else None)"

definition pos_le :: "SwPosition \<Rightarrow> SwPosition \<Rightarrow> bool" where
  "pos_le p q \<longleftrightarrow> fst p < fst q \<or> (fst p = fst q \<and> snd p \<le> snd q)"

definition pam_Start :: "SwPaM \<Rightarrow> SwPosition" where
  "pam_Start p = (if pos_le (pam_point p) (pam_mark p) then pam_point p else pam_mark p)"

definition pam_End :: "SwPaM \<Rightarrow> SwPosition" where
  "pam_End p = (if pos_le (pam_point p) (pam_mark p) then pam_mark p else pam_point p)"


datatype ErrCode = ERRCODE_NONE | ERRCODE_ABORT | ERR_SWG_WRITE_ERROR | ErrOther nat

text \<open>
  The writer: \<^verbatim>\<open>Writer_Impl\<close> with the stream (known by a number), the map of file
  names, the list of font items to remove and the bookmark table; the pointers and the
  flags of \<^verbatim>\<open>Writer\<close>. The attribute pool of the document, which \<^verbatim>\<open>RemoveFontList\<close>
  changes, is the list \<open>attr_pool\<close> of the font items it holds.
\<close>

record Writer_Impl =
  m_pStream :: "nat option"
  maFileNameMap :: "(string \<times> string) list"
  aFontRemoveLst :: "nat list"
  aBkmkNodePos :: "(node \<times> nat) list"


record Writer =
  m_pImpl :: Writer_Impl
  m_pOrigFileName :: "string option"
  m_pDoc :: "nat option"
  m_pOrigPam :: "addr option"
  m_pCurrentPam :: "addr option"
  m_bWriteAll :: bool
  m_bShowProgress :: bool
  m_bUCS2_WithStartChar :: bool
  m_bASCII_NoLastLineEnd :: bool
  m_bASCII_ParaAsBlank :: bool
  m_bASCII_ParaAsCR :: bool
  m_bWriteClipboardDoc :: bool
  m_bWriteOnlyFirstTable :: bool
  m_bBlock :: bool
  m_bOrganizerMode :: bool
  attr_pool :: "nat list"








text \<open>
  \<^verbatim>\<open>Writer::CopyNextPam\<close>: the result, the new value of \<^verbatim>\<open>*ppPam\<close> and the store.
\<close>

definition CopyNextPam :: "Writer \<Rightarrow> pam_store \<Rightarrow> addr \<Rightarrow> (bool \<times> addr \<times> pam_store) option" where
  "CopyNextPam w h ppPam =
     (case lookup h ppPam of
        None \<Rightarrow> None
      | Some p \<Rightarrow>
          if Some (pam_next p) = m_pOrigPam w
          then Some (False, pam_next p, h)
          else (case lookup h (pam_next p) of
                  None \<Rightarrow> None
                | Some nx \<Rightarrow>
                    (case m_pCurrentPam w of
                       None \<Rightarrow> None
                     | Some cur \<Rightarrow>
                         (case lookup h cur of
                            None \<Rightarrow> None
                          | Some c \<Rightarrow>
                              Some (True, pam_next p,
                                    h[cur := Some (c\<lparr> pam_point := pam_Start nx,
                                                       pam_mark := pam_End nx \<rparr>)])))))"







section \<open>Bibliography table: sources by URL\<close>

text \<open>
  Modelled from the spec: the updater of the bibliography table, whose code is not among
  the sources (only its tests are). The spec says that it scans the field content,
  deduplicates the sources by URL and strips fragment identifiers. A bibliography entry
  field of type WWW carries the properties the tests set.
\<close>

record bib_fields =
  Identifier :: string
  Author :: string
  Title :: string
  Year :: string
  URL :: string

text \<open>
  Modelled from the spec: stripping the fragment identifier of a URL, the fragment being
  what follows the first \<^verbatim>\<open>#\<close>, that character included.
\<close>

definition strip_fragment :: "string \<Rightarrow> string" where
  "strip_fragment url = takeWhile (\<lambda>c. c \<noteq> CHR ''#'') url"

text \<open>
  Modelled from the spec: the source that a field names is its content with the fragment
  identifier stripped from the URL.
\<close>

definition source_of :: "bib_fields \<Rightarrow> bib_fields" where
  "source_of f = f\<lparr> URL := strip_fragment (URL f) \<rparr>"

text \<open>
  Modelled from the spec: looking up a source by URL among the rows collected so far
  (the index of the first row with that URL).
\<close>

fun find_source :: "string \<Rightarrow> bib_fields list \<Rightarrow> nat option" where
  "find_source u [] = None"
| "find_source u (r # rows) = (if URL r = u then Some 0 else map_option Suc (find_source u rows))"

text \<open>
  Modelled from the spec: the scan of one field. The state is the rows of the table and,
  for each field scanned so far, the index of the row that shows its source. A field
  whose source has a row already is merged into that row; otherwise its source becomes a
  new last row.
\<close>

definition add_source :: "bib_fields list \<times> nat list \<Rightarrow> bib_fields \<Rightarrow> bib_fields list \<times> nat list" where
  "add_source st f =
     (case find_source (URL (source_of f)) (fst st) of
        Some i \<Rightarrow> (fst st, snd st @ [i])
      | None \<Rightarrow> (fst st @ [source_of f], snd st @ [length (fst st)]))"

text \<open>
  Modelled from the spec: the update of the bibliography table over the bibliography
  entry fields of type WWW of the document, in document order.
\<close>

definition update_table :: "bib_fields list \<Rightarrow> bib_fields list \<times> nat list" where
  "update_table flds = foldl add_source ([], []) flds"

text \<open>
  What holds of the rows and of the row indices after any number of fields: one index
  per field, no URL in two rows, the row of a field has the URL of its source, and every
  row is the row of some field.
\<close>

definition table_inv :: "bib_fields list \<Rightarrow> bib_fields list \<times> nat list \<Rightarrow> bool" where
  "table_inv flds st \<longleftrightarrow>
     length (snd st) = length flds \<and> distinct (map URL (fst st)) \<and>
     (\<forall>i<length flds. snd st ! i < length (fst st) \<and>
         URL (fst st ! (snd st ! i)) = strip_fragment (URL (flds ! i))) \<and>
     (\<forall>k<length (fst st). k \<in> set (snd st))"

text \<open>
  The three fields of the test of the deduplication.
\<close>

definition bib_ex :: "bib_fields list" where
  "bib_ex =
     [\<lparr> Identifier = ''AT'', Author = ''Author'', Title = ''Title'', Year = '''',
        URL = ''http://www.example.com/test.pdf#page=1'' \<rparr>,
      \<lparr> Identifier = ''AT'', Author = ''Author'', Title = ''Title'', Year = '''',
        URL = ''http://www.example.com/test.pdf#page=2'' \<rparr>,
      \<lparr> Identifier = ''AT'', Author = ''Author'', Title = ''Title'', Year = '''',
        URL = ''http://www.example.com/test2.pdf'' \<rparr>]"
section \<open>Proofs: decimal output of numbers\<close>

lemma decimal_digits_length_pos: "0 < length (decimal_digits n)"
  by (induction n rule: decimal_digits.induct) (subst decimal_digits.simps, simp)

lemma decimal_digits_length_bound: "n < 10 ^ k \<Longrightarrow> 0 < k \<Longrightarrow> length (decimal_digits n) \<le> k"
proof (induction n arbitrary: k rule: decimal_digits.induct)
  case (1 n)
  show ?case
  proof (cases "n < 10")
    case True
    then show ?thesis using 1(3) by (subst decimal_digits.simps) simp
  next
    case False
    then obtain k' where k: "k = Suc k'" "0 < k'"
      using 1(2,3) by (cases k; cases "k - 1") auto
    have "n div 10 < 10 ^ k'" using 1(2) k by (simp add: less_mult_imp_div_less mult.commute)
    then have "length (decimal_digits (n div 10)) \<le> k'"
      using 1(1)[OF False _ k(2)] by simp
    then show ?thesis using False k by (subst decimal_digits.simps) simp
  qed
qed

lemma word_div10_nonzero: "((v::64 word) div 10 \<noteq> 0) = (\<not> unat v < 10)"
proof -
  have "(v div 10 = 0) = (unat (v div 10) = 0)" by (simp add: unat_eq_0)
  also have "\<dots> = (unat v div 10 = 0)" by (simp add: unat_div)
  also have "\<dots> = (unat v < 10)" by auto
  finally show ?thesis by simp
qed

lemma OutLongExt_loop_decimal:
  "length (decimal_digits (unat nVal)) \<le> i \<Longrightarrow> i \<le> length aBuf \<Longrightarrow>
   \<exists>aBuf1. OutLongExt_loop aBuf i nVal = Some (aBuf1, i - length (decimal_digits (unat nVal)))
     \<and> length aBuf1 = length aBuf
     \<and> drop (i - length (decimal_digits (unat nVal))) aBuf1 = decimal_digits (unat nVal) @ drop i aBuf"
proof (induction aBuf i nVal rule: OutLongExt_loop.induct)
  case (1 aBuf i nVal)
  let ?d = "char_of (48 + unat (nVal mod 10)) :: char"
  have ipos: "0 < i" using 1(2) decimal_digits_length_pos[of "unat nVal"] by linarith
  have upd: "drop (i - 1) (aBuf[i - 1 := ?d]) = ?d # drop i aBuf"
    using ipos 1(3) by (cases i) (simp_all add: drop_update_cancel Cons_nth_drop_Suc[symmetric] upd_conv_take_nth_drop)
  show ?case
  proof (cases "unat nVal < 10")
    case True
    have dd: "decimal_digits (unat nVal) = [?d]"
      using True by (subst decimal_digits.simps) (simp add: unat_mod)
    have "OutLongExt_loop aBuf i nVal = Some (aBuf[i - 1 := ?d], i - 1)"
      using True ipos by (subst OutLongExt_loop.simps) (simp add: word_div10_nonzero)
    then show ?thesis using dd upd by simp
  next
    case False
    let ?k = "length (decimal_digits (unat nVal div 10))"
    have dd: "decimal_digits (unat nVal) = decimal_digits (unat nVal div 10) @ [?d]"
      using False by (subst decimal_digits.simps) (simp add: unat_mod)
    have nz: "nVal div 10 \<noteq> 0" using False by (simp add: word_div10_nonzero)
    have u: "unat (nVal div 10) = unat nVal div 10" by (simp add: unat_div)
    have le: "?k \<le> i - 1" using 1(2) dd by simp
    have le1: "length (decimal_digits (unat (nVal div 10))) \<le> i - 1" using le u by simp
    have le2: "i - 1 \<le> length (aBuf[i - 1 := ?d])" using 1(3) by simp
    have ne: "i \<noteq> 0" using ipos by simp
    from 1(1)[OF ne nz le1 le2]
    obtain aBuf1 where r:
      "OutLongExt_loop (aBuf[i - 1 := ?d]) (i - 1) (nVal div 10) = Some (aBuf1, i - 1 - ?k)"
      "length aBuf1 = length aBuf"
      "drop (i - 1 - ?k) aBuf1 = decimal_digits (unat nVal div 10) @ drop (i - 1) (aBuf[i - 1 := ?d])"
      unfolding u by auto
    have "OutLongExt_loop aBuf i nVal = Some (aBuf1, i - 1 - ?k)"
      using nz ipos r(1) by (subst OutLongExt_loop.simps) simp
    then show ?thesis using r(2,3) upd dd by simp
  qed
qed

lemma char_of_digit_not_NUL: "d < 10 \<Longrightarrow> char_of (48 + d :: nat) \<noteq> CHR 0x00"
proof
  assume d: "d < 10" and "char_of (48 + d) = CHR 0x00"
  then have "(of_char (char_of (48 + d)) :: nat) = of_char (CHR 0x00)" by simp
  then have "(48 + d) mod 256 = 0" by (simp only: of_char_of) simp
  then show False using d by simp
qed

lemma decimal_digits_no_NUL: "CHR 0x00 \<notin> set (decimal_digits n)"
proof (induction n rule: decimal_digits.induct)
  case (1 n)
  have a: "(48 + n mod 10) mod 256 = 48 + n mod 10" by simp
  show ?case
  proof (cases "n < 10")
    case True
    then have "decimal_digits n = [char_of (48 + n)]" by (subst decimal_digits.simps) simp
    moreover have "char_of (48 + n) \<noteq> CHR 0x00" using True
      by (rule_tac char_of_digit_not_NUL) simp
    ultimately show ?thesis by simp
  next
    case False
    then have "decimal_digits n = decimal_digits (n div 10) @ [char_of (48 + n mod 10)]"
      by (subst decimal_digits.simps) simp
    moreover have "char_of (48 + n mod 10) \<noteq> CHR 0x00"
      by (rule char_of_digit_not_NUL) simp
    ultimately show ?thesis using 1[OF False] by simp
  qed
qed

lemma drop_list_update_hd: "i < length xs \<Longrightarrow> drop i (xs[i := c]) = c # drop (Suc i) xs"
  by (simp add: upd_conv_take_nth_drop)

lemma unat_abs_sint: "unat (if sint (v::64 word) < 0 then - v else v) = nat \<bar>sint v\<bar>"
proof -
  have lo: "- (2 ^ 63) \<le> sint v" using sint_ge[of v] by simp
  have hi: "sint v < 2 ^ 63" using sint_lt[of v] by simp
  have u: "uint v = sint v mod 2 ^ 64" by (simp add: uint_sint take_bit_eq_mod)
  show ?thesis
  proof (cases "sint v < 0")
    case False
    then have "uint v = sint v" using u hi by simp
    then show ?thesis using False by (simp add: unat_eq_nat_uint)
  next
    case True
    have "uint (- v) = (- uint v) mod 2 ^ 64" by (simp add: uint_word_ariths)
    also have "\<dots> = (- sint v) mod 2 ^ 64" unfolding u by (simp add: mod_minus_eq)
    also have "\<dots> = - sint v" using True lo by simp
    finally show ?thesis using True by (simp add: unat_eq_nat_uint)
  qed
qed

lemma lcl_OutLongExt_decimal:
  assumes len: "length aBuf = 28"
  shows "lcl_OutLongExt aBuf rStrm nVal bNeg =
           Some (rStrm @ (if bNeg then ''-'' else []) @ decimal_digits (unat nVal))"
proof -
  let ?ds = "decimal_digits (unat nVal)"
  have "unat nVal < 2 ^ 64" using unsigned_less[of nVal, where 'a=nat] by simp
  then have "unat nVal < 10 ^ 20" by simp
  then have k: "length ?ds \<le> 20" by (rule decimal_digits_length_bound) simp
  have kp: "0 < length ?ds" by (rule decimal_digits_length_pos)
  have "\<exists>aBuf1. OutLongExt_loop (aBuf[27 := CHR 0x00]) 27 nVal = Some (aBuf1, 27 - length ?ds)
     \<and> length aBuf1 = length (aBuf[27 := CHR 0x00])
     \<and> drop (27 - length ?ds) aBuf1 = ?ds @ drop 27 (aBuf[27 := CHR 0x00])"
    using k len by (intro OutLongExt_loop_decimal) simp_all
  then obtain aBuf1 where r:
    "OutLongExt_loop (aBuf[27 := CHR 0x00]) 27 nVal = Some (aBuf1, 27 - length ?ds)"
    "length aBuf1 = 28"
    "drop (27 - length ?ds) aBuf1 = ?ds @ drop 27 (aBuf[27 := CHR 0x00])"
    using len by auto
  have last: "drop 27 (aBuf[27 := CHR 0x00]) = [CHR 0x00]"
    using len by (simp add: drop_list_update_hd)
  have tw: "takeWhile (\<lambda>c. c \<noteq> CHR 0x00) (?ds @ [CHR 0x00]) = ?ds"
    using decimal_digits_no_NUL[of "unat nVal"] by (subst takeWhile_append2) auto
  show ?thesis
  proof (cases bNeg)
    case False
    then show ?thesis using r last tw by (simp add: lcl_OutLongExt_def WriteCharPtr_def)
  next
    case True
    let ?i = "27 - length ?ds"
    have ip: "?i \<noteq> 0" using k by simp
    have "drop (?i - 1) (aBuf1[?i - 1 := CHR ''-'']) = CHR ''-'' # drop (Suc (?i - 1)) aBuf1"
      using r(2) by (intro drop_list_update_hd) simp
    also have "Suc (?i - 1) = ?i" using ip by simp
    finally have "drop (?i - 1) (aBuf1[?i - 1 := CHR ''-'']) = CHR ''-'' # ?ds @ [CHR 0x00]"
      using r(3) last by simp
    then show ?thesis using True r(1) ip tw by (simp add: lcl_OutLongExt_def WriteCharPtr_def)
  qed
qed

lemma digits_value_snoc: "digits_value (ds @ [c]) = 10 * digits_value ds + (of_char c - 48)"
  by (simp add: digits_value_def)

lemma of_char_digit: "d < 10 \<Longrightarrow> (of_char (char_of (48 + d :: nat)) :: nat) - 48 = d"
  by (simp only: of_char_of) simp

lemma decimal_digits_value: "digits_value (decimal_digits n) = n"
proof (induction n rule: decimal_digits.induct)
  case (1 n)
  show ?case
  proof (cases "n < 10")
    case True
    then have "decimal_digits n = [] @ [char_of (48 + n)]" by (subst decimal_digits.simps) simp
    then show ?thesis using True of_char_digit[of n]
      by (simp only: digits_value_snoc) (simp add: digits_value_def)
  next
    case False
    then have "decimal_digits n = decimal_digits (n div 10) @ [char_of (48 + n mod 10)]"
      by (subst decimal_digits.simps) simp
    then show ?thesis using 1[OF False] of_char_digit[of "n mod 10"]
      by (simp only: digits_value_snoc) simp
  qed
qed

lemma char_of_digit_mem_all: "\<forall>d\<in>{0..<10::nat}. char_of (48 + d) \<in> set ''0123456789''"
  by code_simp

lemma char_of_digit_mem: "d < 10 \<Longrightarrow> char_of (48 + d :: nat) \<in> set ''0123456789''"
  using char_of_digit_mem_all by auto

lemma decimal_digits_are_digits: "set (decimal_digits n) \<subseteq> set ''0123456789''"
proof (induction n rule: decimal_digits.induct)
  case (1 n)
  show ?case
  proof (cases "n < 10")
    case True
    then have "decimal_digits n = [char_of (48 + n)]" by (subst decimal_digits.simps) simp
    then show ?thesis using char_of_digit_mem[OF True] by simp
  next
    case False
    then have "decimal_digits n = decimal_digits (n div 10) @ [char_of (48 + n mod 10)]"
      by (subst decimal_digits.simps) simp
    then show ?thesis using 1[OF False] char_of_digit_mem[of "n mod 10"] by simp
  qed
qed

lemma char_of_digit_zero: "d < 10 \<Longrightarrow> char_of (48 + d :: nat) = CHR ''0'' \<Longrightarrow> d = 0"
proof -
  assume d: "d < 10" and "char_of (48 + d) = CHR ''0''"
  then have "(of_char (char_of (48 + d)) :: nat) = of_char (CHR ''0'')" by simp
  then have "(48 + d) mod 256 = 48" by (simp only: of_char_of) simp
  then show "d = 0" using d by simp
qed

lemma decimal_digits_no_leading_zero: "0 < n \<Longrightarrow> hd (decimal_digits n) \<noteq> CHR ''0''"
proof (induction n rule: decimal_digits.induct)
  case (1 n)
  show ?case
  proof (cases "n < 10")
    case True
    then have "decimal_digits n = [char_of (48 + n)]" by (subst decimal_digits.simps) simp
    then show ?thesis using char_of_digit_zero[OF True] 1(2) by auto
  next
    case False
    then have "decimal_digits n = decimal_digits (n div 10) @ [char_of (48 + n mod 10)]"
      by (subst decimal_digits.simps) simp
    moreover have "decimal_digits (n div 10) \<noteq> []"
      using decimal_digits_length_pos[of "n div 10"] by auto
    moreover have "hd (decimal_digits (n div 10)) \<noteq> CHR ''0''"
      using False by (intro 1(1)) simp_all
    ultimately show ?thesis by simp
  qed
qed

lemma decimal_digits_zero: "decimal_digits 0 = ''0''"
  by code_simp

text \<open>
  Claim C10. For every value of an unsigned long, \<^verbatim>\<open>Writer::OutULong\<close> appends to
  the stream exactly the decimal digits of the value (no leading zero, the single digit 0
  for zero), and for every value of a long \<^verbatim>\<open>Writer::OutLong\<close> appends the decimal
  digits of its absolute value, after a minus sign when the value is negative. The
  lemmas \<open>decimal_digits_value\<close>, \<open>decimal_digits_are_digits\<close>,
  \<open>decimal_digits_no_leading_zero\<close> and \<open>decimal_digits_zero\<close> say that
  \<open>decimal_digits\<close> is that notation.
\<close>

theorem Writer_OutULong_OutLong_decimal:
  "length aBuf = 28 \<Longrightarrow>
     OutULong aBuf rStrm uVal = Some (rStrm @ decimal_digits (unat uVal)) \<and>
     OutLong aBuf rStrm nVal =
       Some (rStrm @ (if sint nVal < 0 then ''-'' else []) @ decimal_digits (nat \<bar>sint nVal\<bar>))"
  using unat_abs_sint[of nVal]
  by (simp add: OutULong_def OutLong_def Let_def lcl_OutLongExt_decimal)

theorem Writer_OutULong_OutLong_decimal_witness:
  "length (replicate 28 CHR ''x'') = 28 \<and>
   OutULong (replicate 28 CHR ''x'') ''ab'' 1230 = Some ''ab1230'' \<and>
   OutLong (replicate 28 CHR ''x'') ''ab'' (- 45) = Some ''ab-45''"
proof -
  have d1: "decimal_digits 1230 = ''1230''" by code_simp
  have d2: "decimal_digits 45 = ''45''" by code_simp
  show ?thesis
    using Writer_OutULong_OutLong_decimal[of "replicate 28 CHR ''x''" "''ab''" 1230 "- 45"] d1 d2
    by simp
qed

section \<open>Proofs: drawing a text layout in runs\<close>

lemma find_from_before:
  assumes "aIt \<le> j" "j < find_from ori aIt v"
  shows "ori ! j \<noteq> v"
proof -
  let ?tw = "takeWhile (\<lambda>x. x \<noteq> v) (drop aIt ori)"
  have j: "j - aIt < length ?tw" using assms by (simp add: find_from_def)
  then have "?tw ! (j - aIt) \<in> set ?tw" by (rule nth_mem)
  then have "?tw ! (j - aIt) \<noteq> v" by (auto dest: set_takeWhileD)
  moreover have "?tw ! (j - aIt) = drop aIt ori ! (j - aIt)" using j by (rule takeWhile_nth)
  moreover have "j - aIt < length (drop aIt ori)"
    using j length_takeWhile_le[of "\<lambda>x. x \<noteq> v" "drop aIt ori"] by linarith
  ultimately show ?thesis using assms(1) by simp
qed

lemma find_from_at:
  assumes "find_from ori aIt v < length ori"
  shows "ori ! find_from ori aIt v = v"
proof -
  let ?tw = "takeWhile (\<lambda>x. x \<noteq> v) (drop aIt ori)"
  have "length ?tw < length (drop aIt ori)" using assms by (simp add: find_from_def)
  then have "\<not> (drop aIt ori ! length ?tw \<noteq> v)" by (rule nth_length_takeWhile)
  moreover have "aIt + length ?tw < length ori" using assms by (simp add: find_from_def)
  ultimately show ?thesis by (simp add: find_from_def)
qed

lemma draw_runs_unfold:
  "aIt < length ori \<Longrightarrow>
   draw_runs rot ids pos ori aIt =
     \<lparr> dc_nStartIndex = aIt, dc_nLen = find_from ori aIt (\<not> ori ! aIt) - aIt,
       drawn_glyphs = take (find_from ori aIt (\<not> ori ! aIt) - aIt) (drop aIt ids),
       drawn_pos = take (find_from ori aIt (\<not> ori ! aIt) - aIt) (drop aIt pos),
       rotated_ctm = (rot \<and> \<not> ori ! aIt) \<rparr>
     # draw_runs rot ids pos ori (find_from ori aIt (\<not> ori ! aIt))"
  by (subst draw_runs.simps) (simp add: Let_def)

lemma draw_runs_end: "\<not> aIt < length ori \<Longrightarrow> draw_runs rot ids pos ori aIt = []"
  by (subst draw_runs.simps) simp

lemma draw_runs_run_ok:
  "r \<in> set (draw_runs rot ids pos ori aIt) \<Longrightarrow> run_ok rot ids pos ori r"
proof (induction rot ids pos ori aIt rule: draw_runs.induct)
  case (1 rot ids pos ori aIt)
  show ?case
  proof (cases "aIt < length ori")
    case False
    then show ?thesis using 1(2) by (simp add: draw_runs_end)
  next
    case True
    let ?n = "find_from ori aIt (\<not> ori ! aIt)"
    define r0 :: "'a draw_call" where "r0 = \<lparr> dc_nStartIndex = aIt, dc_nLen = ?n - aIt,
         drawn_glyphs = take (?n - aIt) (drop aIt ids),
         drawn_pos = take (?n - aIt) (drop aIt pos),
         rotated_ctm = (rot \<and> \<not> ori ! aIt) \<rparr>"
    have "draw_runs rot ids pos ori aIt = r0 # draw_runs rot ids pos ori ?n"
      unfolding r0_def using True by (rule draw_runs_unfold)
    then have "r \<in> set (r0 # draw_runs rot ids pos ori ?n)" using 1(2) by simp
    then have "r = r0 \<or> r \<in> set (draw_runs rot ids pos ori ?n)" by (rule set_ConsD[THEN disjE]) simp_all
    then show ?thesis
    proof
      assume "r \<in> set (draw_runs rot ids pos ori ?n)"
      then show ?thesis using 1(1)[OF True refl refl] by simp
    next
      assume hd: "r = r0"
      have p: "aIt < ?n" using True by (rule find_from_progress)
      have l: "?n \<le> length ori" using True by (intro find_from_le_length) simp
      have c3: "\<forall>j. aIt \<le> j \<and> j < ?n \<longrightarrow> ori ! j = ori ! aIt"
      proof (intro allI impI)
        fix j assume j: "aIt \<le> j \<and> j < ?n"
        have "ori ! j \<noteq> (\<not> ori ! aIt)"
          by (rule find_from_before[of aIt j]) (use j in blast)+
        then show "ori ! j = ori ! aIt" by blast
      qed
      have c4: "?n < length ori \<longrightarrow> ori ! ?n \<noteq> ori ! aIt"
      proof
        assume "?n < length ori"
        then have "ori ! ?n = (\<not> ori ! aIt)" by (rule find_from_at)
        then show "ori ! ?n \<noteq> ori ! aIt" by blast
      qed
      have s: "aIt + (?n - aIt) = ?n" using p by simp
      have f: "dc_nStartIndex r = aIt" "dc_nLen r = ?n - aIt"
        "drawn_glyphs r = take (?n - aIt) (drop aIt ids)"
        "drawn_pos r = take (?n - aIt) (drop aIt pos)"
        "rotated_ctm r = (rot \<and> \<not> ori ! aIt)"
        by (simp_all add: hd r0_def)
      show ?thesis unfolding run_ok_def f s
      proof (intro conjI)
        show "0 < ?n - aIt" using p by simp
        show "?n \<le> length ori" by (rule l)
        show "\<forall>j. aIt \<le> j \<and> j < ?n \<longrightarrow> ori ! j = ori ! aIt" by (rule c3)
        show "?n < length ori \<longrightarrow> ori ! ?n \<noteq> ori ! aIt" by (rule c4)
      qed (rule refl)+
    qed
  qed
qed

lemma draw_runs_sum_nLen:
  "aIt \<le> length ori \<Longrightarrow> sum_list (map dc_nLen (draw_runs rot ids pos ori aIt)) = length ori - aIt"
proof (induction rot ids pos ori aIt rule: draw_runs.induct)
  case (1 rot ids pos ori aIt)
  show ?case
  proof (cases "aIt < length ori")
    case False
    then show ?thesis using 1(2) by (simp add: draw_runs_end)
  next
    case True
    let ?n = "find_from ori aIt (\<not> ori ! aIt)"
    have p: "aIt < ?n" using True by (rule find_from_progress)
    have l: "?n \<le> length ori" using True by (intro find_from_le_length) simp
    have "sum_list (map dc_nLen (draw_runs rot ids pos ori ?n)) = length ori - ?n"
      using 1(1)[OF True refl refl l] .
    then show ?thesis using p l by (simp add: draw_runs_unfold[OF True])
  qed
qed

lemma draw_runs_starts:
  "k < length (draw_runs rot ids pos ori aIt) \<Longrightarrow>
   dc_nStartIndex (draw_runs rot ids pos ori aIt ! k)
     = aIt + sum_list (map dc_nLen (take k (draw_runs rot ids pos ori aIt)))"
proof (induction rot ids pos ori aIt arbitrary: k rule: draw_runs.induct)
  case (1 rot ids pos ori aIt)
  show ?case
  proof (cases "aIt < length ori")
    case False
    then show ?thesis using 1(2) by (simp add: draw_runs_end)
  next
    case True
    let ?n = "find_from ori aIt (\<not> ori ! aIt)"
    have p: "aIt < ?n" using True by (rule find_from_progress)
    show ?thesis
    proof (cases k)
      case 0
      then show ?thesis by (simp add: draw_runs_unfold[OF True])
    next
      case (Suc k')
      then have "k' < length (draw_runs rot ids pos ori ?n)"
        using 1(2) by (simp add: draw_runs_unfold[OF True])
      then have "dc_nStartIndex (draw_runs rot ids pos ori ?n ! k')
         = ?n + sum_list (map dc_nLen (take k' (draw_runs rot ids pos ori ?n)))"
        using 1(1)[OF True refl refl] by simp
      then show ?thesis using Suc p by (simp add: draw_runs_unfold[OF True])
    qed
  qed
qed

lemma draw_runs_concat_glyphs:
  "length ids = length ori \<Longrightarrow> aIt \<le> length ori \<Longrightarrow>
   concat (map drawn_glyphs (draw_runs rot ids pos ori aIt)) = drop aIt ids"
proof (induction rot ids pos ori aIt rule: draw_runs.induct)
  case (1 rot ids pos ori aIt)
  show ?case
  proof (cases "aIt < length ori")
    case False
    then show ?thesis using 1(2,3) by (simp add: draw_runs_end)
  next
    case True
    let ?n = "find_from ori aIt (\<not> ori ! aIt)"
    have p: "aIt < ?n" using True by (rule find_from_progress)
    have l: "?n \<le> length ori" using True by (intro find_from_le_length) simp
    have ih: "concat (map drawn_glyphs (draw_runs rot ids pos ori ?n)) = drop ?n ids"
      using 1(1)[OF True refl refl 1(2) l] .
    have "take (?n - aIt) (drop aIt ids) @ drop ?n ids = drop aIt ids"
    proof -
      have "drop ?n ids = drop (?n - aIt) (drop aIt ids)" using p by simp
      then show ?thesis by (simp only: append_take_drop_id)
    qed
    then show ?thesis using ih by (simp add: draw_runs_unfold[OF True])
  qed
qed


lemma collect_glyphs_lengths:
  "collect_glyphs ops rStyle rLayout = (ids, pos, ori) \<Longrightarrow>
   length ids = length rLayout \<and> length pos = length rLayout \<and> length ori = length rLayout"
  by (induction rLayout arbitrary: ids pos ori) (auto simp: Let_def split: prod.splits if_splits)

lemma collect_glyphs_ids:
  "collect_glyphs ops rStyle rLayout = (ids, pos, ori) \<Longrightarrow>
   ids = map (\<lambda>g. glyphId (fst g)) rLayout \<and>
   ori = map (\<lambda>g. mfFontRotation rStyle \<noteq> 0 \<and> IsVertical (fst g)) rLayout"
  by (induction rLayout arbitrary: ids pos ori) (auto simp: Let_def split: prod.splits if_splits)


lemma draw_runs_left_maximal:
  "r \<in> set (draw_runs rot ids pos ori aIt) \<Longrightarrow>
   dc_nStartIndex r = aIt \<or> (aIt < dc_nStartIndex r \<and> ori ! (dc_nStartIndex r - 1) \<noteq> ori ! dc_nStartIndex r)"
proof (induction rot ids pos ori aIt rule: draw_runs.induct)
  case (1 rot ids pos ori aIt)
  show ?case
  proof (cases "aIt < length ori")
    case False
    then show ?thesis using 1(2) by (simp add: draw_runs_end)
  next
    case True
    let ?n = "find_from ori aIt (\<not> ori ! aIt)"
    define r0 :: "'a draw_call" where "r0 = \<lparr> dc_nStartIndex = aIt, dc_nLen = ?n - aIt,
         drawn_glyphs = take (?n - aIt) (drop aIt ids),
         drawn_pos = take (?n - aIt) (drop aIt pos),
         rotated_ctm = (rot \<and> \<not> ori ! aIt) \<rparr>"
    have "draw_runs rot ids pos ori aIt = r0 # draw_runs rot ids pos ori ?n"
      unfolding r0_def using True by (rule draw_runs_unfold)
    then have "r \<in> set (r0 # draw_runs rot ids pos ori ?n)" using 1(2) by simp
    then have "r = r0 \<or> r \<in> set (draw_runs rot ids pos ori ?n)" by (rule set_ConsD[THEN disjE]) simp_all
    then show ?thesis
    proof
      assume "r = r0"
      then show ?thesis by (simp add: r0_def)
    next
      assume tl: "r \<in> set (draw_runs rot ids pos ori ?n)"
      have p: "aIt < ?n" using True by (rule find_from_progress)
      have nlt: "?n < length ori"
      proof (rule ccontr)
        assume "\<not> ?n < length ori"
        then have "draw_runs rot ids pos ori ?n = []" by (rule draw_runs_end)
        then show False using tl by simp
      qed
      have ih: "dc_nStartIndex r = ?n \<or> (?n < dc_nStartIndex r \<and> ori ! (dc_nStartIndex r - 1) \<noteq> ori ! dc_nStartIndex r)"
        using 1(1)[OF True refl refl tl] .
      then show ?thesis
      proof
        assume eq: "dc_nStartIndex r = ?n"
        have "ori ! (?n - 1) \<noteq> (\<not> ori ! aIt)"
          by (rule find_from_before[of aIt]) (use p in simp_all)
        moreover have "ori ! ?n = (\<not> ori ! aIt)" using nlt by (rule find_from_at)
        ultimately have "ori ! (?n - 1) \<noteq> ori ! ?n" by blast
        then show ?thesis using eq p by simp
      next
        assume "?n < dc_nStartIndex r \<and> ori ! (dc_nStartIndex r - 1) \<noteq> ori ! dc_nStartIndex r"
        then show ?thesis using p by simp
      qed
    qed
  qed
qed

text \<open>
  Claim C5. The draw calls of \<^verbatim>\<open>drawTextLayout\<close> split the collected glyphs into
  maximal runs of equal orientation, one call for each run: the counts add up to the
  number of glyphs, every run starts where the runs before it end (so the runs are
  contiguous, disjoint and cover every glyph, and the glyphs drawn, in order, are the
  glyphs collected), every run is not empty, all its glyphs have the uprightness flag of
  its first glyph, the glyph after it and the glyph before it (when there is one) have
  the other flag, and the call draws exactly the glyphs and positions of the run, under
  a rotated context exactly for a run of glyphs that are not upright in a rotated font.
\<close>

theorem drawTextLayout_runs:
  assumes c: "collect_glyphs ops rStyle rLayout = (ids, pos, ori)"
    and h: "mnHeight rStyle \<noteq> 0"
  shows "sum_list (map dc_nLen (drawTextLayout ops rStyle rLayout)) = length rLayout \<and>
    (\<forall>k < length (drawTextLayout ops rStyle rLayout).
        dc_nStartIndex (drawTextLayout ops rStyle rLayout ! k)
          = sum_list (map dc_nLen (take k (drawTextLayout ops rStyle rLayout)))) \<and>
    concat (map drawn_glyphs (drawTextLayout ops rStyle rLayout)) = ids \<and>
    (\<forall>r \<in> set (drawTextLayout ops rStyle rLayout).
        0 < dc_nLen r \<and>
        (\<forall>j. dc_nStartIndex r \<le> j \<and> j < dc_nStartIndex r + dc_nLen r \<longrightarrow> ori ! j = ori ! dc_nStartIndex r) \<and>
        (dc_nStartIndex r + dc_nLen r < length ori \<longrightarrow> ori ! (dc_nStartIndex r + dc_nLen r) \<noteq> ori ! dc_nStartIndex r) \<and>
        (0 < dc_nStartIndex r \<longrightarrow> ori ! (dc_nStartIndex r - 1) \<noteq> ori ! dc_nStartIndex r) \<and>
        drawn_glyphs r = take (dc_nLen r) (drop (dc_nStartIndex r) ids) \<and>
        drawn_pos r = take (dc_nLen r) (drop (dc_nStartIndex r) pos) \<and>
        rotated_ctm r = (mfFontRotation rStyle \<noteq> 0 \<and> \<not> ori ! dc_nStartIndex r))"
proof -
  let ?rs = "draw_runs (mfFontRotation rStyle \<noteq> 0) ids pos ori 0"
  have len: "length ids = length rLayout" "length pos = length rLayout" "length ori = length rLayout"
    using collect_glyphs_lengths[OF c] by simp_all
  have e: "ids = [] \<Longrightarrow> ?rs = []"
    using len by (simp add: draw_runs_end)
  have d: "drawTextLayout ops rStyle rLayout = ?rs"
    using c h e by (auto simp: drawTextLayout_def)
  have 1: "sum_list (map dc_nLen ?rs) = length rLayout"
    using draw_runs_sum_nLen[of 0 ori] len by simp
  have 2: "\<forall>k < length ?rs. dc_nStartIndex (?rs ! k) = sum_list (map dc_nLen (take k ?rs))"
    using draw_runs_starts[of _ "mfFontRotation rStyle \<noteq> 0" ids pos ori 0] by simp
  have 3: "concat (map drawn_glyphs ?rs) = ids"
    using draw_runs_concat_glyphs[of ids ori 0] len by simp
  have 4: "\<forall>r \<in> set ?rs.
        0 < dc_nLen r \<and>
        (\<forall>j. dc_nStartIndex r \<le> j \<and> j < dc_nStartIndex r + dc_nLen r \<longrightarrow> ori ! j = ori ! dc_nStartIndex r) \<and>
        (dc_nStartIndex r + dc_nLen r < length ori \<longrightarrow> ori ! (dc_nStartIndex r + dc_nLen r) \<noteq> ori ! dc_nStartIndex r) \<and>
        (0 < dc_nStartIndex r \<longrightarrow> ori ! (dc_nStartIndex r - 1) \<noteq> ori ! dc_nStartIndex r) \<and>
        drawn_glyphs r = take (dc_nLen r) (drop (dc_nStartIndex r) ids) \<and>
        drawn_pos r = take (dc_nLen r) (drop (dc_nStartIndex r) pos) \<and>
        rotated_ctm r = (mfFontRotation rStyle \<noteq> 0 \<and> \<not> ori ! dc_nStartIndex r)"
  proof
    fix r assume r: "r \<in> set ?rs"
    have ok: "run_ok (mfFontRotation rStyle \<noteq> 0) ids pos ori r" using r by (rule draw_runs_run_ok)
    have lm: "dc_nStartIndex r = 0 \<or> (0 < dc_nStartIndex r \<and> ori ! (dc_nStartIndex r - 1) \<noteq> ori ! dc_nStartIndex r)"
      using r by (rule draw_runs_left_maximal)
    have "0 < dc_nStartIndex r \<longrightarrow> ori ! (dc_nStartIndex r - 1) \<noteq> ori ! dc_nStartIndex r"
      using lm by auto
    then show "0 < dc_nLen r \<and>
        (\<forall>j. dc_nStartIndex r \<le> j \<and> j < dc_nStartIndex r + dc_nLen r \<longrightarrow> ori ! j = ori ! dc_nStartIndex r) \<and>
        (dc_nStartIndex r + dc_nLen r < length ori \<longrightarrow> ori ! (dc_nStartIndex r + dc_nLen r) \<noteq> ori ! dc_nStartIndex r) \<and>
        (0 < dc_nStartIndex r \<longrightarrow> ori ! (dc_nStartIndex r - 1) \<noteq> ori ! dc_nStartIndex r) \<and>
        drawn_glyphs r = take (dc_nLen r) (drop (dc_nStartIndex r) ids) \<and>
        drawn_pos r = take (dc_nLen r) (drop (dc_nStartIndex r) pos) \<and>
        rotated_ctm r = (mfFontRotation rStyle \<noteq> 0 \<and> \<not> ori ! dc_nStartIndex r)"
      using ok unfolding run_ok_def by blast
  qed
  show ?thesis unfolding d using 1 2 3 4 by blast
qed

theorem drawTextLayout_runs_witness:
  "collect_glyphs \<lparr> flip_y = (\<lambda>p::int. - p), upright_adjust = (\<lambda>p. p - 10), rotate_pos = (\<lambda>p. p * 2) \<rparr>
      \<lparr> mfFontRotation = 1::int, mnHeight = 12 \<rparr>
      [(\<lparr>glyphId = 5, IsVertical = True\<rparr>, 1), (\<lparr>glyphId = 6, IsVertical = True\<rparr>, 2),
       (\<lparr>glyphId = 7, IsVertical = False\<rparr>, 3)]
     = ([5, 6, 7], [- 11, - 12, - 6], [True, True, False]) \<and>
   mnHeight \<lparr> mfFontRotation = 1::int, mnHeight = 12 \<rparr> \<noteq> 0 \<and>
   sum_list (map dc_nLen (drawTextLayout
      \<lparr> flip_y = (\<lambda>p::int. - p), upright_adjust = (\<lambda>p. p - 10), rotate_pos = (\<lambda>p. p * 2) \<rparr>
      \<lparr> mfFontRotation = 1::int, mnHeight = 12 \<rparr>
      [(\<lparr>glyphId = 5, IsVertical = True\<rparr>, 1), (\<lparr>glyphId = 6, IsVertical = True\<rparr>, 2),
       (\<lparr>glyphId = 7, IsVertical = False\<rparr>, 3)])) = 3 \<and>
   concat (map drawn_glyphs (drawTextLayout
      \<lparr> flip_y = (\<lambda>p::int. - p), upright_adjust = (\<lambda>p. p - 10), rotate_pos = (\<lambda>p. p * 2) \<rparr>
      \<lparr> mfFontRotation = 1::int, mnHeight = 12 \<rparr>
      [(\<lparr>glyphId = 5, IsVertical = True\<rparr>, 1), (\<lparr>glyphId = 6, IsVertical = True\<rparr>, 2),
       (\<lparr>glyphId = 7, IsVertical = False\<rparr>, 3)])) = [5, 6, 7]"
proof -
  let ?ops = "\<lparr> flip_y = (\<lambda>p::int. - p), upright_adjust = (\<lambda>p. p - 10), rotate_pos = (\<lambda>p. p * 2) \<rparr>"
  let ?st = "\<lparr> mfFontRotation = 1::int, mnHeight = 12 \<rparr>"
  let ?ly = "[(\<lparr>glyphId = 5, IsVertical = True\<rparr>, 1::int), (\<lparr>glyphId = 6, IsVertical = True\<rparr>, 2),
       (\<lparr>glyphId = 7, IsVertical = False\<rparr>, 3)]"
  have c: "collect_glyphs ?ops ?st ?ly = ([5, 6, 7], [- 11, - 12, - 6], [True, True, False])"
    by simp
  have h: "mnHeight ?st \<noteq> 0" by simp
  show ?thesis using drawTextLayout_runs[OF c h] c h by simp
qed

lemma drawTextLayout_example:
  "drawTextLayout \<lparr> flip_y = (\<lambda>p::int. - p), upright_adjust = (\<lambda>p. p - 10), rotate_pos = (\<lambda>p. p * 2) \<rparr>
      \<lparr> mfFontRotation = 1::int, mnHeight = 12 \<rparr>
      [(\<lparr>glyphId = 5, IsVertical = True\<rparr>, 1), (\<lparr>glyphId = 6, IsVertical = True\<rparr>, 2),
       (\<lparr>glyphId = 7, IsVertical = False\<rparr>, 3)]
   = [\<lparr>dc_nStartIndex = 0, dc_nLen = 2, drawn_glyphs = [5, 6], drawn_pos = [- 11, - 12], rotated_ctm = False\<rparr>,
      \<lparr>dc_nStartIndex = 2, dc_nLen = 1, drawn_glyphs = [7], drawn_pos = [- 6], rotated_ctm = True\<rparr>]"
  by (simp add: drawTextLayout_def draw_runs.simps find_from_def)

section \<open>Proofs: the object an item names\<close>

lemma first_index_Nil [simp]: "first_index P [] = None"
  by (simp add: first_index_def)

lemma first_index_Cons:
  "first_index P (x # xs) = (if P x then Some 0 else map_option Suc (first_index P xs))"
  by (simp add: first_index_def)

lemma first_index_Some_iff:
  "first_index P xs = Some i \<longleftrightarrow> i < length xs \<and> P (xs ! i) \<and> (\<forall>j<i. \<not> P (xs ! j))"
proof (induction xs arbitrary: i)
  case Nil
  show ?case by simp
next
  case (Cons x xs)
  show ?case
  proof (cases "P x")
    case True
    then show ?thesis by (cases i) (auto simp: first_index_Cons)
  next
    case False
    show ?thesis
    proof (cases i)
      case 0
      then show ?thesis using False by (simp add: first_index_Cons)
    next
      case (Suc k)
      have "(\<forall>j<Suc k. \<not> P ((x # xs) ! j)) = (\<forall>j<k. \<not> P (xs ! j))"
        using False by (auto simp: less_Suc_eq_0_disj)
      then show ?thesis using False Suc Cons.IH[of k] by (simp add: first_index_Cons)
    qed
  qed
qed

lemma first_index_None_iff: "first_index P xs = None \<longleftrightarrow> (\<forall>x\<in>set xs. \<not> P x)"
  by (simp add: first_index_def list_ex_iff)

lemma FindDdeBookmark_loop_first_index:
  "FindDdeBookmark_loop env ms k sNameLc b =
     map_option (\<lambda>i. k + i)
       (first_index (\<lambda>m. mk_is_dde m \<and>
           ((b \<and> mk_name m = sNameLc) \<or> (\<not> b \<and> lowercase env (mk_name m) = sNameLc))) ms)"
proof (induction ms arbitrary: k)
  case Nil
  show ?case by simp
next
  case (Cons m ms)
  show ?case
    by (simp add: first_index_Cons Cons.IH option.map_comp comp_def)
qed

lemma lcl_FindDdeBookmark_first_dde:
  "lcl_FindDdeBookmark env (doc_marks doc) s b = first_dde env b s doc"
proof -
  have "(\<lambda>m. mk_is_dde m \<and> ((b \<and> mk_name m = (if b then s else lowercase env s)) \<or>
            (\<not> b \<and> lowercase env (mk_name m) = (if b then s else lowercase env s))))
        = dde_named env b s"
    by (auto simp: dde_named_def fun_eq_iff)
  then show ?thesis
    by (simp add: lcl_FindDdeBookmark_def first_dde_def FindDdeBookmark_loop_first_index
        Let_def option.map_ident)
qed

lemma lcl_FindSection_eq:
  "lcl_FindSection env f aPara b =
     (if sec_cmp env b (m_Item aPara) f
      then (False, aPara\<lparr> pSectNd := map_option idx_node (sf_content_idx f) \<rparr>)
      else (True, aPara))"
  by (auto simp: lcl_FindSection_def sec_cmp_def Let_def split: option.splits)

lemma for_sections_find:
  "for_sections env fs aPara b =
     (case List.find (sec_cmp env b (m_Item aPara)) fs of
        None \<Rightarrow> aPara
      | Some f \<Rightarrow> aPara\<lparr> pSectNd := map_option idx_node (sf_content_idx f) \<rparr>)"
  by (induction fs) (simp_all add: lcl_FindSection_eq)

lemma sec_cmp_exact: "sec_cmp env True s = section_named env True s"
  by (auto simp: sec_cmp_def section_named_def fun_eq_iff split: option.splits)

lemma sec_cmp_folded:
  "lowercase_idem env \<Longrightarrow> sec_cmp env False (lowercase env s) = section_named env False s"
  by (auto simp: sec_cmp_def section_named_def fun_eq_iff lowercase_idem_def split: option.splits)

lemma for_sections_first_section:
  assumes "b \<or> lowercase_idem env"
  shows "pSectNd (for_sections env (doc_sections doc)
            (FindItem_new (if b then s else lowercase env s)) b) = first_section env b s doc"
proof (cases b)
  case True
  then show ?thesis
    by (simp add: for_sections_find FindItem_new_def sec_cmp_exact first_section_def
        split: option.splits)
next
  case False
  then have "lowercase_idem env" using assms by simp
  then show ?thesis using False
    by (simp add: for_sections_find FindItem_new_def sec_cmp_folded first_section_def
        split: option.splits)
qed

lemma lcl_FindTable_eq:
  "lcl_FindTable env t aPara =
     (if lowercase env (tf_name t) = m_Item aPara \<and> table_node t \<noteq> None
      then (False, aPara\<lparr> pTableNd := table_node t \<rparr>)
      else (True, aPara))"
  by (auto simp: lcl_FindTable_def table_node_def Let_def split: option.splits)

lemma for_tables_find:
  "for_tables env ts aPara =
     (case List.find (\<lambda>t. lowercase env (tf_name t) = m_Item aPara \<and> table_node t \<noteq> None) ts of
        None \<Rightarrow> aPara
      | Some t \<Rightarrow> aPara\<lparr> pTableNd := table_node t \<rparr>)"
  by (induction ts) (auto simp: lcl_FindTable_eq)

lemma for_tables_first_table:
  "pTableNd (for_tables env (doc_tables doc) (FindItem_new (lowercase env s))) = first_table env s doc"
proof -
  have "(\<lambda>t. lowercase env (tf_name t) = lowercase env s \<and> table_node t \<noteq> None) = table_named env s"
    by (simp add: table_named_def fun_eq_iff)
  then show ?thesis
    by (simp add: for_tables_find FindItem_new_def first_table_def split: option.splits)
qed


lemma GetData_loop_folded:
  assumes "lowercase_idem env"
  shows "GetData_loop env srv doc item mime v False =
    (case first_dde env False item doc of
       Some i \<Rightarrow> Some (srv (OfBookmark i) mime v)
     | None \<Rightarrow>
         (case first_section env False item doc of
            Some n \<Rightarrow> Some (srv (OfSection n) mime v)
          | None \<Rightarrow> None))"
  using for_sections_first_section[of False env doc item] assms
  by (subst GetData_loop.simps)
     (simp add: lcl_FindDdeBookmark_first_dde Let_def split: option.splits)

lemma GetData_loop_exact:
  "GetData_loop env srv doc item mime v True =
    (case first_dde env True item doc of
       Some i \<Rightarrow> Some (srv (OfBookmark i) mime v)
     | None \<Rightarrow>
         (case first_section env True item doc of
            Some n \<Rightarrow> Some (srv (OfSection n) mime v)
          | None \<Rightarrow> GetData_loop env srv doc item mime v False))"
  using for_sections_first_section[of True env doc item]
  by (subst GetData_loop.simps)
     (simp add: lcl_FindDdeBookmark_first_dde Let_def split: option.splits)

lemma GetData_order:
  assumes "lowercase_idem env"
  shows "GetData env srv doc item mime v =
    (case first_dde env True item doc of
       Some i \<Rightarrow> srv (OfBookmark i) mime v
     | None \<Rightarrow>
    (case first_section env True item doc of
       Some n \<Rightarrow> srv (OfSection n) mime v
     | None \<Rightarrow>
    (case first_dde env False item doc of
       Some i \<Rightarrow> srv (OfBookmark i) mime v
     | None \<Rightarrow>
    (case first_section env False item doc of
       Some n \<Rightarrow> srv (OfSection n) mime v
     | None \<Rightarrow>
    (case first_table env item doc of
       Some n \<Rightarrow> srv (OfTable n) mime v
     | None \<Rightarrow> (False, v))))))"
  by (simp add: GetData_def GetData_loop_exact GetData_loop_folded[OF assms]
      for_tables_first_table Let_def split: option.splits)




















lemma lower_char_idem: "lower_char (lower_char c) = lower_char c"
  by (simp add: lower_char_def)

lemma lowercase_idem_env_ex: "lowercase_idem env_ex"
  by (simp add: lowercase_idem_def env_ex_def lower_char_idem)

lemma dde_named_exact_folded: "dde_named env True s m \<Longrightarrow> dde_named env False s m"
  by (auto simp: dde_named_def)

lemma section_named_exact_folded: "section_named env True s f \<Longrightarrow> section_named env False s f"
  by (auto simp: section_named_def split: option.splits)

lemma first_dde_None:
  "\<forall>m\<in>set (doc_marks doc). \<not> dde_named env False s m \<Longrightarrow> first_dde env exact s doc = None"
  using dde_named_exact_folded[of env s]
  by (cases exact) (auto simp: first_dde_def first_index_None_iff)

lemma first_section_None:
  assumes "\<forall>f\<in>set (doc_sections doc). \<not> section_named env False s f"
  shows "first_section env exact s doc = None"
proof -
  have "\<forall>f\<in>set (doc_sections doc). \<not> section_named env exact s f"
    using assms section_named_exact_folded[of env s] by (cases exact) auto
  then have "List.find (section_named env exact s) (doc_sections doc) = None"
    by (simp add: find_None_iff)
  then show ?thesis by (simp add: first_section_def)
qed

lemma first_table_None:
  assumes "\<forall>t\<in>set (doc_tables doc). \<not> table_named env s t"
  shows "first_table env s doc = None"
proof -
  have "List.find (table_named env s) (doc_tables doc) = None"
    using assms by (simp add: find_None_iff)
  then show ?thesis by (simp add: first_table_def)
qed

text \<open>
  Claim C9. When no DDE bookmark, no section and no table of the document has the name of
  the item, not even up to case, \<^verbatim>\<open>GetData\<close> returns false and the value passed in
  is the value handed back. (A name that matches exactly also matches up to case, so the
  three hypotheses cover both passes.)
\<close>

theorem GetData_no_match:
  assumes "lowercase_idem env"
    and "\<forall>m\<in>set (doc_marks doc). \<not> dde_named env False rItem m"
    and "\<forall>f\<in>set (doc_sections doc). \<not> section_named env False rItem f"
    and "\<forall>t\<in>set (doc_tables doc). \<not> table_named env rItem t"
  shows "GetData env srv doc rItem rMimeType rValue = (False, rValue)"
  by (simp add: GetData_order[OF assms(1)] first_dde_None[OF assms(2)]
      first_section_None[OF assms(3)] first_table_None[OF assms(4)])

theorem GetData_no_match_witness:
  "GetData env_ex (\<lambda>x m v. (True, Suc v)) doc_ex ''Z'' () (5::nat) = (False, 5)"
proof -
  have 1: "\<forall>m\<in>set (doc_marks doc_ex). \<not> dde_named env_ex False ''Z'' m" by code_simp
  have 2: "\<forall>f\<in>set (doc_sections doc_ex). \<not> section_named env_ex False ''Z'' f" by code_simp
  have 3: "\<forall>t\<in>set (doc_tables doc_ex). \<not> table_named env_ex ''Z'' t" by code_simp
  show ?thesis
    using GetData_no_match[OF lowercase_idem_env_ex 1 2 3, of "\<lambda>x m v. (True, Suc v)" "()" 5]
    by simp
qed

lemma first_dde_tables_upd [simp]:
  "first_dde env b s (doc\<lparr> doc_tables := ts \<rparr>) = first_dde env b s doc"
  by (simp add: first_dde_def)

lemma first_section_tables_upd [simp]:
  "first_section env b s (doc\<lparr> doc_tables := ts \<rparr>) = first_section env b s doc"
  by (simp add: first_section_def)

lemma first_table_marks_sections_upd [simp]:
  "first_table env s (doc\<lparr> doc_marks := ms, doc_sections := fs \<rparr>) = first_table env s doc"
  by (simp add: first_table_def)













text \<open>
  The table branch of \<^verbatim>\<open>SelectServerObj\<close> compares the lower-cased table name with the
  name as the item gives it: the table \<open>T\<close> of the example is found under \<open>t\<close> and
  not under its own name, while \<^verbatim>\<open>SetData\<close> finds it under both.
\<close>

lemma SelectServerObj_table_name_case:
  "SelectServerObj env_ex doc_ex ''T|table'' = (False, None, None) \<and>
   SelectServerObj env_ex doc_ex ''t|table'' = (True, None, Some \<lparr> aStart = 7, aEnd = 13 \<rparr>) \<and>
   first_table env_ex ''T'' doc_ex = Some 7 \<and>
   SetData env_ex doc_ex ''T'' = AtEnd \<lparr> m_Item = ''t'', pTableNd = Some 7, pSectNd = None \<rparr> \<and>
   SetData env_ex doc_ex ''t'' = AtEnd \<lparr> m_Item = ''t'', pTableNd = Some 7, pSectNd = None \<rparr>"
  by code_simp

section \<open>Proofs: the faked SFNT font\<close>

lemma be32_arith:
  assumes "(x::nat) < 4294967296"
  shows "x div 16777216 mod 256 * 16777216 + x div 65536 mod 256 * 65536
           + x div 256 mod 256 * 256 + x mod 256 = x"
proof -
  have a: "x mod (256 * 256) = 256 * (x div 256 mod 256) + x mod 256" by (rule mod_mult2_eq)
  have b: "x mod (65536 * 256) = 65536 * (x div 65536 mod 256) + x mod 65536" by (rule mod_mult2_eq)
  have c: "x mod (16777216 * 256) = 16777216 * (x div 16777216 mod 256) + x mod 16777216"
    by (rule mod_mult2_eq)
  have d: "x mod (16777216 * 256) = x" using assms by simp
  show ?thesis using a b c d by simp
qed

lemma be32_bytes:
  assumes "x < 4294967296"
  shows "unat (of_nat (x div 2 ^ 24) :: 8 word) * 2 ^ 24 + unat (of_nat (x div 2 ^ 16) :: 8 word) * 2 ^ 16
       + unat (of_nat (x div 2 ^ 8) :: 8 word) * 2 ^ 8 + unat (of_nat x :: 8 word) = x"
proof -
  have u: "\<And>y. unat (of_nat y :: 8 word) = y mod 256" by (simp add: unat_of_nat)
  have t: "x div 16777216 mod 256 = x div 16777216"
    using assms by (intro mod_less) (simp add: less_mult_imp_div_less)
  show ?thesis unfolding u using be32_arith[OF assms] t by simp
qed

lemma take4_drop_nth:
  assumes "i + 4 \<le> length xs"
  shows "take 4 (drop i xs) = [xs ! i, xs ! (i + 1), xs ! (i + 2), xs ! (i + 3)]"
proof -
  have d0: "drop i xs = xs ! i # drop (Suc i) xs" using assms by (intro Cons_nth_drop_Suc[symmetric]) simp
  have d1: "drop (Suc i) xs = xs ! Suc i # drop (Suc (Suc i)) xs"
    using assms by (intro Cons_nth_drop_Suc[symmetric]) simp
  have d2: "drop (Suc (Suc i)) xs = xs ! Suc (Suc i) # drop (Suc (Suc (Suc i))) xs"
    using assms by (intro Cons_nth_drop_Suc[symmetric]) simp
  have d3: "drop (Suc (Suc (Suc i))) xs = xs ! Suc (Suc (Suc i)) # drop (Suc (Suc (Suc (Suc i)))) xs"
    using assms by (intro Cons_nth_drop_Suc[symmetric]) simp
  have "take 4 (drop i xs) = [xs ! i, xs ! Suc i, xs ! Suc (Suc i), xs ! Suc (Suc (Suc i))]"
    by (simp only: d0 d1 d2 d3) (simp add: numeral_eq_Suc)
  then show ?thesis by (simp add: numeral_eq_Suc)
qed

lemma tag4: "length (t::string) = 4 \<Longrightarrow> t = [t ! 0, t ! 1, t ! 2, t ! 3]"
  by (auto simp: numeral_eq_Suc length_Suc_conv)

lemma write_table_nth:
  assumes "nOfs + length d \<le> length buf"
  shows "length (take nOfs buf @ d @ drop (nOfs + length d) buf) = length buf"
    and "i < nOfs \<or> nOfs + length d \<le> i \<Longrightarrow> i < length buf \<Longrightarrow>
           (take nOfs buf @ d @ drop (nOfs + length d) buf) ! i = buf ! i"
    and "j < length d \<Longrightarrow> (take nOfs buf @ d @ drop (nOfs + length d) buf) ! (nOfs + j) = d ! j"
  using assms by (auto simp: nth_append min_def)

lemma table_step_effect:
  assumes sz: "nSize = int (length (f tag))" and adv: "0 \<le> nAdvance"
    and b1: "nOfs + length (f tag) \<le> length buf" and b2: "pF + 16 \<le> nOfs"
    and tl: "length tag = 4" and o32: "nOfs < 4294967296" "length (f tag) < 4294967296"
  shows "\<exists>b. table_step f jc tag nSize nAdvance (buf, nOfs, pF) = Inr (b, nOfs + nat nAdvance, pF + 16) \<and>
           length b = length buf \<and>
           (\<forall>i<length buf. (i < pF \<or> pF + 16 \<le> i) \<and> (i < nOfs \<or> nOfs + length (f tag) \<le> i)
              \<longrightarrow> b ! i = buf ! i) \<and>
           be32 b (pF + 8) = nOfs \<and> be32 b (pF + 12) = length (f tag) \<and>
           take 4 (drop pF b) = map of_char tag \<and>
           take (length (f tag)) (drop nOfs b) = f tag"
proof -
  let ?d = "f tag"
  let ?b1 = "take nOfs buf @ ?d @ drop (nOfs + length ?d) buf"
  let ?b2 = "?b1[pF + 0 := of_char (tag ! 0), pF + 1 := of_char (tag ! 1),
                 pF + 2 := of_char (tag ! 2), pF + 3 := of_char (tag ! 3),
                 pF + 8 := of_nat (nOfs div 2 ^ 24), pF + 9 := of_nat (nOfs div 2 ^ 16),
                 pF + 10 := of_nat (nOfs div 2 ^ 8), pF + 11 := of_nat nOfs,
                 pF + 12 := of_nat (length ?d div 2 ^ 24), pF + 13 := of_nat (length ?d div 2 ^ 16),
                 pF + 14 := of_nat (length ?d div 2 ^ 8), pF + 15 := of_nat (length ?d)]"
  have l1: "length ?b1 = length buf" using b1 by (rule write_table_nth(1))
  have l2: "length ?b2 = length buf" using l1 by simp
  have pl: "pF + 16 \<le> length buf" using b1 b2 by linarith
  have into: "GetFontTable_into f tag buf nOfs = Some (int (length ?d), ?b1)"
    using b1 by (simp add: GetFontTable_into_def)
  have fde: "FakeDirEntry tag nOfs (nat nSize) ?b1 pF = Some (?b2, pF + 16)"
    using pl l1 sz by (simp add: FakeDirEntry_def)
  have na: "nat (int nOfs + nAdvance) = nOfs + nat nAdvance" using adv by simp
  have res: "table_step f jc tag nSize nAdvance (buf, nOfs, pF) = Inr (?b2, nOfs + nat nAdvance, pF + 16)"
    unfolding table_step_def prod.case into option.case fde na
    by (simp only: sz simp_thms if_False)
  have other: "\<And>i. i < pF \<or> pF + 16 \<le> i \<Longrightarrow> ?b2 ! i = ?b1 ! i"
    by (auto simp: nth_list_update)
  have frame: "\<forall>i<length buf. (i < pF \<or> pF + 16 \<le> i) \<and> (i < nOfs \<or> nOfs + length ?d \<le> i)
              \<longrightarrow> ?b2 ! i = buf ! i"
  proof (intro allI impI)
    fix i assume i: "i < length buf" and c: "(i < pF \<or> pF + 16 \<le> i) \<and> (i < nOfs \<or> nOfs + length ?d \<le> i)"
    have "?b2 ! i = ?b1 ! i" using c by (intro other) blast
    also have "?b1 ! i = buf ! i" using c i b1 by (intro write_table_nth(2)) blast+
    finally show "?b2 ! i = buf ! i" .
  qed
  have ofs: "be32 ?b2 (pF + 8) = nOfs"
    using pl l1 be32_bytes[OF o32(1)] by (simp add: be32_def nth_list_update)
  have len: "be32 ?b2 (pF + 12) = length ?d"
    using pl l1 be32_bytes[OF o32(2)] by (simp add: be32_def nth_list_update)
  have tg: "take 4 (drop pF ?b2) = map of_char tag"
  proof -
    have "take 4 (drop pF ?b2) = [?b2 ! pF, ?b2 ! (pF + 1), ?b2 ! (pF + 2), ?b2 ! (pF + 3)]"
      using pl l2 by (intro take4_drop_nth) linarith
    also have "\<dots> = [of_char (tag ! 0), of_char (tag ! 1), of_char (tag ! 2), of_char (tag ! 3)]"
      using pl l1 by (simp add: nth_list_update)
    also have "\<dots> = map of_char [tag ! 0, tag ! 1, tag ! 2, tag ! 3]" by simp
    also have "[tag ! 0, tag ! 1, tag ! 2, tag ! 3] = tag" using tag4[OF tl] by simp
    finally show ?thesis .
  qed
  have dat: "take (length ?d) (drop nOfs ?b2) = ?d"
  proof (rule nth_equalityI)
    show "length (take (length ?d) (drop nOfs ?b2)) = length ?d" using l2 b1 by simp
  next
    fix j assume "j < length (take (length ?d) (drop nOfs ?b2))"
    then have j: "j < length ?d" by simp
    have "take (length ?d) (drop nOfs ?b2) ! j = ?b2 ! (nOfs + j)" using j l2 b1 by simp
    also have "\<dots> = ?b1 ! (nOfs + j)" using b2 by (intro other) linarith
    also have "\<dots> = ?d ! j" using b1 j by (intro write_table_nth(3))
    finally show "take (length ?d) (drop nOfs ?b2) ! j = ?d ! j" .
  qed
  show ?thesis using res l2 frame ofs len tg dat by blast
qed

lemma be32_cong:
  "b ! i = b' ! i \<Longrightarrow> b ! (i + 1) = b' ! (i + 1) \<Longrightarrow> b ! (i + 2) = b' ! (i + 2) \<Longrightarrow>
   b ! (i + 3) = b' ! (i + 3) \<Longrightarrow> be32 b i = be32 b' i"
  by (simp add: be32_def)

lemma step_offset_0 [simp]: "step_offset nOfs steps 0 = nOfs"
  by (simp add: step_offset_def)

lemma step_offset_Cons:
  "0 \<le> adv \<Longrightarrow> step_offset nOfs ((tag, sz, adv) # rest) (Suc k) = step_offset (nOfs + nat adv) rest k"
  by (simp add: step_offset_def add.assoc)

lemma steps_ok_Cons:
  "steps_ok f ((tag, sz, adv) # rest) \<longleftrightarrow>
     length tag = 4 \<and> sz = int (length (f tag)) \<and> 0 \<le> adv \<and> adv \<le> sz \<and> steps_ok f rest"
  by (simp add: steps_ok_def)

lemma run_steps_entries:
  assumes "steps_ok f steps"
    and "pF + 16 * length steps \<le> nOfs"
    and "nOfs + sum_list (map (\<lambda>s. length (f (fst s))) steps) \<le> length buf"
    and "length buf < 4294967296"
  shows "\<exists>b. run_steps f jc steps (Inr (buf, nOfs, pF))
               = Inr (b, step_offset nOfs steps (length steps), pF + 16 * length steps) \<and>
             length b = length buf \<and>
             (\<forall>i<length buf. i < pF \<or> (pF + 16 * length steps \<le> i \<and> i < nOfs) \<longrightarrow> b ! i = buf ! i) \<and>
             (\<forall>k<length steps.
                take 4 (drop (pF + 16 * k) b) = map of_char (fst (steps ! k)) \<and>
                be32 b (pF + 16 * k + 8) = step_offset nOfs steps k \<and>
                be32 b (pF + 16 * k + 12) = length (f (fst (steps ! k))))"
  using assms
proof (induction steps arbitrary: buf nOfs pF)
  case Nil
  show ?case by simp
next
  case (Cons s rest)
  obtain tag sz adv where s: "s = (tag, sz, adv)" by (cases s) auto
  have ok: "length tag = 4" "sz = int (length (f tag))" "0 \<le> adv" "adv \<le> sz" "steps_ok f rest"
    using Cons.prems(1) by (simp_all add: s steps_ok_Cons)
  let ?n = "length rest"
  let ?tot = "sum_list (map (\<lambda>s. length (f (fst s))) rest)"
  have dir: "pF + 16 + 16 * ?n \<le> nOfs" using Cons.prems(2) by simp
  have room: "nOfs + length (f tag) + ?tot \<le> length buf" using Cons.prems(3) by (simp add: s)
  have small: "length buf < 4294967296" by (rule Cons.prems(4))
  have b1: "nOfs + length (f tag) \<le> length buf" using room by linarith
  have b2: "pF + 16 \<le> nOfs" using dir by linarith
  have o32: "nOfs < 4294967296" "length (f tag) < 4294967296" using b1 small by linarith+
  from table_step_effect[where f=f and tag=tag and jc=jc, OF ok(2) ok(3) b1 b2 ok(1) o32]
  obtain b1' where st:
    "table_step f jc tag sz adv (buf, nOfs, pF) = Inr (b1', nOfs + nat adv, pF + 16)"
    "length b1' = length buf"
    "\<forall>i<length buf. (i < pF \<or> pF + 16 \<le> i) \<and> (i < nOfs \<or> nOfs + length (f tag) \<le> i) \<longrightarrow> b1' ! i = buf ! i"
    "be32 b1' (pF + 8) = nOfs" "be32 b1' (pF + 12) = length (f tag)"
    "take 4 (drop pF b1') = map of_char tag"
    by blast
  have advle: "nat adv \<le> length (f tag)" using ok(2,3,4) by simp
  have dir': "(pF + 16) + 16 * ?n \<le> nOfs + nat adv" using dir by linarith
  have room': "(nOfs + nat adv) + ?tot \<le> length b1'" using room advle st(2) by linarith
  have small': "length b1' < 4294967296" using small st(2) by simp
  from Cons.IH[OF ok(5) dir' room' small']
  obtain b where ih:
    "run_steps f jc rest (Inr (b1', nOfs + nat adv, pF + 16))
       = Inr (b, step_offset (nOfs + nat adv) rest ?n, pF + 16 + 16 * ?n)"
    "length b = length b1'"
    "\<forall>i<length b1'. i < pF + 16 \<or> (pF + 16 + 16 * ?n \<le> i \<and> i < nOfs + nat adv) \<longrightarrow> b ! i = b1' ! i"
    "\<forall>k<?n. take 4 (drop (pF + 16 + 16 * k) b) = map of_char (fst (rest ! k)) \<and>
            be32 b (pF + 16 + 16 * k + 8) = step_offset (nOfs + nat adv) rest k \<and>
            be32 b (pF + 16 + 16 * k + 12) = length (f (fst (rest ! k)))"
    by blast
  have pl: "pF + 16 \<le> length buf" using b1 b2 by linarith
  have low: "\<And>i. i < pF + 16 \<Longrightarrow> b ! i = b1' ! i" using ih(3) st(2) pl by simp
  have run: "run_steps f jc (s # rest) (Inr (buf, nOfs, pF))
       = Inr (b, step_offset nOfs (s # rest) (length (s # rest)), pF + 16 * length (s # rest))"
    using ih(1) ok(3) by (simp add: s and_then_def st(1) step_offset_Cons)
  have len: "length b = length buf" using ih(2) st(2) by simp
  have frame: "\<forall>i<length buf. i < pF \<or> (pF + 16 * length (s # rest) \<le> i \<and> i < nOfs) \<longrightarrow> b ! i = buf ! i"
  proof (intro allI impI)
    fix i assume i: "i < length buf" and c: "i < pF \<or> (pF + 16 * length (s # rest) \<le> i \<and> i < nOfs)"
    have c1: "i < pF + 16 \<or> (pF + 16 + 16 * ?n \<le> i \<and> i < nOfs + nat adv)"
      using c by auto
    have c2: "(i < pF \<or> pF + 16 \<le> i) \<and> (i < nOfs \<or> nOfs + length (f tag) \<le> i)"
      using c b2 by auto
    have "i < length b1'" using i st(2) by simp
    then have "b ! i = b1' ! i" using ih(3) c1 by blast
    also have "b1' ! i = buf ! i" using st(3) i c2 by blast
    finally show "b ! i = buf ! i" .
  qed
  have e0: "take 4 (drop pF b) = map of_char tag \<and> be32 b (pF + 8) = nOfs \<and>
            be32 b (pF + 12) = length (f tag)"
  proof (intro conjI)
    have "take 4 (drop pF b) = [b ! pF, b ! (pF + 1), b ! (pF + 2), b ! (pF + 3)]"
      using pl len by (intro take4_drop_nth) linarith
    also have "\<dots> = [b1' ! pF, b1' ! (pF + 1), b1' ! (pF + 2), b1' ! (pF + 3)]"
      by (simp add: low)
    also have "\<dots> = take 4 (drop pF b1')"
      using pl st(2) by (intro take4_drop_nth[symmetric]) linarith
    finally show "take 4 (drop pF b) = map of_char tag" using st(6) by simp
    have "be32 b (pF + 8) = be32 b1' (pF + 8)" by (intro be32_cong low) simp_all
    then show "be32 b (pF + 8) = nOfs" using st(4) by simp
    have "be32 b (pF + 12) = be32 b1' (pF + 12)" by (intro be32_cong low) simp_all
    then show "be32 b (pF + 12) = length (f tag)" using st(5) by simp
  qed
  have ents: "\<forall>k<length (s # rest).
                take 4 (drop (pF + 16 * k) b) = map of_char (fst ((s # rest) ! k)) \<and>
                be32 b (pF + 16 * k + 8) = step_offset nOfs (s # rest) k \<and>
                be32 b (pF + 16 * k + 12) = length (f (fst ((s # rest) ! k)))"
  proof (intro allI impI)
    fix k assume k: "k < length (s # rest)"
    show "take 4 (drop (pF + 16 * k) b) = map of_char (fst ((s # rest) ! k)) \<and>
          be32 b (pF + 16 * k + 8) = step_offset nOfs (s # rest) k \<and>
          be32 b (pF + 16 * k + 12) = length (f (fst ((s # rest) ! k)))"
    proof (cases k)
      case 0
      then show ?thesis using e0 by (simp add: s)
    next
      case (Suc k')
      then have k': "k' < ?n" using k by simp
      have a: "pF + 16 * Suc k' = pF + 16 + 16 * k'" by simp
      have so: "step_offset nOfs (s # rest) (Suc k') = step_offset (nOfs + nat adv) rest k'"
        using ok(3) by (simp add: s step_offset_Cons)
      have nn: "(s # rest) ! Suc k' = rest ! k'" by simp
      show ?thesis unfolding Suc a so nn using ih(4) k' by blast
    qed
  qed
  show ?case using run len frame ents by blast
qed

lemma and_then_Inr [simp]: "and_then (Inr st) g = g st"
  by (simp add: and_then_def)

lemma GetRawFontData_cff_run:
  assumes "has_required_tables f" and "f ''CFF '' \<noteq> []"
  shows "\<exists>hdr. length hdr = cff_total f \<and>
     GetRawFontData f buf0 None =
       (case run_steps f None (cff_steps f) (Inr (hdr, 124, 12)) of
          Inl x \<Rightarrow> x
        | Inr (buf, nOfs, pF) \<Rightarrow>
            Returned \<lparr> ret = True, rBuffer = buf, pJustCFF = None,
                       warned = (nOfs \<noteq> cff_total f) \<rparr>)"
proof -
  let ?T = "cff_total f"
  let ?hdr = "(resize ?T buf0)[1 := 1, 5 := 7, 7 := of_nat (log2_loop 7 0 * 16),
                 9 := of_nat (log2_loop 7 0), 11 := of_int ((7 - int (log2_loop 7 0)) * 16)]"
  have l: "length ?hdr = ?T" by (simp add: resize_def)
  have tot: "int ?T = 124 + (int (length (f ''head'')) + int (length (f ''maxp'')) + int (length (f ''name''))
                + int (length (f ''cmap''))) + int (length (f ''CFF ''))
                + (int (length (f ''hhea'')) + int (length (f ''hmtx'')))"
    by (simp add: cff_total_def)
  have "GetRawFontData f buf0 None =
       (case run_steps f None (cff_steps f) (Inr (?hdr, 124, 12)) of
          Inl x \<Rightarrow> x
        | Inr (buf, nOfs, pF) \<Rightarrow>
            Returned \<lparr> ret = True, rBuffer = buf, pJustCFF = None,
                       warned = (nOfs \<noteq> ?T) \<rparr>)"
    using assms
    by (simp add: GetRawFontData_def has_required_tables_def GetFontTable_size_def Let_def
        cff_steps_def tot[symmetric] del: of_nat_add split: sum.splits prod.splits)
  then show ?thesis using l by blast
qed

lemma steps_ok_cff: "steps_ok f (cff_steps f)"
  by (simp add: steps_ok_def cff_steps_def GetFontTable_size_def)

lemma entry_fields:
  "entry_tag b k = take 4 (drop (12 + 16 * k) b)"
  "entry_offset b k = be32 b (12 + 16 * k + 8)"
  "entry_length b k = be32 b (12 + 16 * k + 12)"
  by (simp_all add: entry_tag_def entry_offset_def entry_length_def)

lemma nat_sum6:
  "nat (124 + (int a + (int b + (int c + (int d + (int e + int g))))))
     = 124 + a + b + c + d + e + g"
  by linarith

lemma GetRawFontData_cff_general:
  assumes req: "has_required_tables f" and cff: "f ''CFF '' \<noteq> []"
    and small: "cff_total f < 4294967296"
  shows "\<exists>b. GetRawFontData f buf0 None
               = Returned \<lparr> ret = True, rBuffer = b, pJustCFF = None, warned = True \<rparr> \<and>
             length b = cff_total f \<and>
             entry_tag b 1 = map of_char ''CFF '' \<and> entry_tag b 2 = map of_char ''head'' \<and>
             entry_offset b 1 = 124 + length (f ''cmap'') \<and> entry_length b 1 = length (f ''CFF '') \<and>
             entry_offset b 2 = 124 + length (f ''cmap'') \<and> entry_length b 2 = length (f ''head'')"
proof -
  from GetRawFontData_cff_run[OF req cff, of buf0]
  obtain hdr where hdr: "length hdr = cff_total f"
    "GetRawFontData f buf0 None =
       (case run_steps f None (cff_steps f) (Inr (hdr, 124, 12)) of
          Inl x \<Rightarrow> x
        | Inr (buf, nOfs, pF) \<Rightarrow>
            Returned \<lparr> ret = True, rBuffer = buf, pJustCFF = None,
                       warned = (nOfs \<noteq> cff_total f) \<rparr>)"
    by blast
  have n: "length (cff_steps f) = 7" by (simp add: cff_steps_def)
  have dir: "12 + 16 * length (cff_steps f) \<le> (124::nat)" by (simp add: n)
  have room: "124 + sum_list (map (\<lambda>s. length (f (fst s))) (cff_steps f)) \<le> length hdr"
    by (simp add: hdr(1) cff_total_def cff_steps_def)
  have sm: "length hdr < 4294967296" using small hdr(1) by simp
  from run_steps_entries[OF steps_ok_cff dir room sm, of None]
  obtain b where b:
    "run_steps f None (cff_steps f) (Inr (hdr, 124, 12))
       = Inr (b, step_offset 124 (cff_steps f) (length (cff_steps f)), 12 + 16 * length (cff_steps f))"
    "length b = length hdr"
    "\<forall>k<length (cff_steps f).
        take 4 (drop (12 + 16 * k) b) = map of_char (fst (cff_steps f ! k)) \<and>
        be32 b (12 + 16 * k + 8) = step_offset 124 (cff_steps f) k \<and>
        be32 b (12 + 16 * k + 12) = length (f (fst (cff_steps f ! k)))"
    by blast
  have pos: "0 < length (f ''CFF '')" using cff by simp
  have "step_offset 124 (cff_steps f) (length (cff_steps f))
          = 124 + length (f ''cmap'') + length (f ''head'') + length (f ''hhea'')
              + length (f ''hmtx'') + length (f ''maxp'') + length (f ''name'')"
    by (simp add: step_offset_def cff_steps_def GetFontTable_size_def nat_sum6)
  then have fin: "step_offset 124 (cff_steps f) (length (cff_steps f)) \<noteq> cff_total f"
    using pos unfolding cff_total_def by linarith
  have k1: "1 < length (cff_steps f)" and k2: "2 < length (cff_steps f)" by (simp_all add: n)
  note e1 = b(3)[rule_format, OF k1]
  note e2 = b(3)[rule_format, OF k2]
  have s1: "cff_steps f ! 1 = (''CFF '', GetFontTable_size f ''CFF '', 0)"
    "cff_steps f ! 2 = (''head'', GetFontTable_size f ''head'', GetFontTable_size f ''head'')"
    by (simp_all add: cff_steps_def)
  have o1: "step_offset 124 (cff_steps f) 1 = 124 + length (f ''cmap'')"
    "step_offset 124 (cff_steps f) 2 = 124 + length (f ''cmap'')"
    by (simp_all add: step_offset_def cff_steps_def GetFontTable_size_def numeral_2_eq_2)
  have res: "GetRawFontData f buf0 None
               = Returned \<lparr> ret = True, rBuffer = b, pJustCFF = None, warned = True \<rparr>"
    unfolding hdr(2) b(1) using fin by simp
  have t1: "entry_tag b 1 = map of_char ''CFF ''"
    using e1 unfolding entry_fields s1 by simp
  have t2: "entry_offset b 1 = 124 + length (f ''cmap'')"
    using e1 unfolding entry_fields o1 by blast
  have t3: "entry_length b 1 = length (f ''CFF '')"
    using e1 unfolding entry_fields s1 by simp
  have t4: "entry_tag b 2 = map of_char ''head''"
    using e2 unfolding entry_fields s1 by simp
  have t5: "entry_offset b 2 = 124 + length (f ''cmap'')"
    using e2 unfolding entry_fields o1 by blast
  have t6: "entry_length b 2 = length (f ''head'')"
    using e2 unfolding entry_fields s1 by simp
  have lb: "length b = cff_total f" using b(2) hdr(1) by simp
  show ?thesis using res lb t1 t2 t3 t4 t5 t6 by blast
qed

text \<open>
  Claim C3 fails on the code for a font with a \<open>CFF\<close> table when \<^verbatim>\<open>pJustCFF\<close> is
  null: after the \<open>CFF\<close> table the offset advances by \<^verbatim>\<open>nGlyfSize\<close>, which is zero
  for such a font. On the example font the directory entries of \<open>CFF\<close> (three bytes)
  and of \<open>head\<close> (two bytes) record the same offset 126, so the two tables overlap in
  the buffer, and at the end the running offset differs from the total size: the
  warning of the source is given.
\<close>

theorem GetRawFontData_cff_overlap:
  "(case GetRawFontData cff_font [] None of
      Undefined \<Rightarrow> False
    | Returned r \<Rightarrow>
        ret r \<and> warned r \<and> length (rBuffer r) = 135 \<and>
        entry_tag (rBuffer r) 1 = map of_char ''CFF '' \<and>
        entry_offset (rBuffer r) 1 = 126 \<and> entry_length (rBuffer r) 1 = 3 \<and>
        entry_tag (rBuffer r) 2 = map of_char ''head'' \<and>
        entry_offset (rBuffer r) 2 = 126 \<and> entry_length (rBuffer r) 2 = 2)"
proof -
  have req: "has_required_tables cff_font" by (simp add: has_required_tables_def cff_font_def)
  have cff: "cff_font ''CFF '' \<noteq> []" by (simp add: cff_font_def)
  have tot: "cff_total cff_font = 135" by (simp add: cff_total_def cff_font_def)
  have small: "cff_total cff_font < 4294967296" by (simp add: tot)
  have l: "length (cff_font ''cmap'') = 2" "length (cff_font ''CFF '') = 3"
    "length (cff_font ''head'') = 2" by (simp_all add: cff_font_def)
  from GetRawFontData_cff_general[OF req cff small, of "[]"]
  obtain b where b:
    "GetRawFontData cff_font [] None
       = Returned \<lparr> ret = True, rBuffer = b, pJustCFF = None, warned = True \<rparr>"
    "length b = cff_total cff_font"
    "entry_tag b 1 = map of_char ''CFF ''" "entry_tag b 2 = map of_char ''head''"
    "entry_offset b 1 = 124 + length (cff_font ''cmap'')"
    "entry_length b 1 = length (cff_font ''CFF '')"
    "entry_offset b 2 = 124 + length (cff_font ''cmap'')"
    "entry_length b 2 = length (cff_font ''head'')"
    by blast
  show ?thesis unfolding b(1) using b(2-) by (simp add: tot l)
qed


section \<open>Export writer: Write iterates a copy and resets the writer\<close>

lemma lookup_append_new [simp]: "lookup (h @ [x]) (length h) = x"
  by (simp add: lookup_def)


lemma lookup_Some_less: "lookup h a = Some p \<Longrightarrow> a < length h"
  by (simp add: lookup_def split: if_splits)




lemma lookup_update_same: "a < length h \<Longrightarrow> lookup (h[a := x]) a = x"
  by (simp add: lookup_def)

lemma CopyNextPam_copies:
  assumes "CopyNextPam w h ppPam = Some (True, ppPam1, h1)"
  shows "\<exists>p nx cur c. lookup h ppPam = Some p \<and> ppPam1 = pam_next p \<and> lookup h ppPam1 = Some nx \<and>
           m_pCurrentPam w = Some cur \<and> lookup h cur = Some c \<and>
           lookup h1 cur = Some (c\<lparr> pam_point := pam_Start nx, pam_mark := pam_End nx \<rparr>)"
proof -
  obtain p where p: "lookup h ppPam = Some p"
    using assms by (cases "lookup h ppPam") (simp_all add: CopyNextPam_def)
  have ne: "Some (pam_next p) \<noteq> m_pOrigPam w"
    using assms p by (auto simp: CopyNextPam_def)
  obtain nx where nx: "lookup h (pam_next p) = Some nx"
    using assms p ne by (cases "lookup h (pam_next p)") (simp_all add: CopyNextPam_def)
  obtain cur where cur: "m_pCurrentPam w = Some cur"
    using assms p ne nx by (cases "m_pCurrentPam w") (simp_all add: CopyNextPam_def)
  obtain c where c: "lookup h cur = Some c"
    using assms p ne nx cur by (cases "lookup h cur") (simp_all add: CopyNextPam_def)
  have r: "ppPam1 = pam_next p"
    "h1 = h[cur := Some (c\<lparr> pam_point := pam_Start nx, pam_mark := pam_End nx \<rparr>)]"
    using assms p ne nx cur c by (simp_all add: CopyNextPam_def)
  have "cur < length h" using c by (rule lookup_Some_less)
  then have "lookup h1 cur = Some (c\<lparr> pam_point := pam_Start nx, pam_mark := pam_End nx \<rparr>)"
    unfolding r(2) by (rule lookup_update_same)
  then show ?thesis using p nx cur c r(1) by blast
qed




section \<open>Bibliography table: one row per source URL\<close>

lemma find_source_None: "find_source u rows = None \<longleftrightarrow> u \<notin> URL ` set rows"
  by (induction rows) auto

lemma find_source_Some:
  "find_source u rows = Some i \<Longrightarrow> i < length rows \<and> URL (rows ! i) = u"
  by (induction rows arbitrary: i) (auto split: if_splits)

lemma strip_fragment_no_hash: "CHR ''#'' \<notin> set (strip_fragment u)"
  unfolding strip_fragment_def by (induction u) auto

lemma strip_fragment_id: "CHR ''#'' \<notin> set u \<Longrightarrow> strip_fragment u = u"
  unfolding strip_fragment_def by (induction u) auto

lemma URL_source_of [simp]: "URL (source_of f) = strip_fragment (URL f)"
  by (simp add: source_of_def)

lemma table_inv_add:
  assumes "table_inv flds st"
  shows "table_inv (flds @ [f]) (add_source st f)"
proof (cases "find_source (strip_fragment (URL f)) (fst st)")
  case None
  then have new: "strip_fragment (URL f) \<notin> URL ` set (fst st)" by (simp add: find_source_None)
  have e: "add_source st f = (fst st @ [source_of f], snd st @ [length (fst st)])"
    by (simp add: add_source_def None)
  show ?thesis
    using assms new unfolding e table_inv_def
    by (auto simp: nth_append less_Suc_eq)
next
  case (Some i)
  from find_source_Some[OF Some] have i: "i < length (fst st)" "URL (fst st ! i) = strip_fragment (URL f)"
    by simp_all
  have e: "add_source st f = (fst st, snd st @ [i])"
    by (simp add: add_source_def Some)
  show ?thesis
    using assms i unfolding e table_inv_def
    by (auto simp: nth_append less_Suc_eq)
qed

lemma update_table_snoc: "update_table (flds @ [f]) = add_source (update_table flds) f"
  by (simp add: update_table_def)

lemma table_inv_update: "table_inv flds (update_table flds)"
proof (induction flds rule: rev_induct)
  case Nil
  show ?case by (simp add: table_inv_def update_table_def)
next
  case (snoc f flds)
  then show ?case unfolding update_table_snoc by (rule table_inv_add)
qed

lemma strip_fragment_cases:
  "u = strip_fragment u \<or> (\<exists>frag. u = strip_fragment u @ CHR ''#'' # frag)"
  unfolding strip_fragment_def by (induction u) auto

lemma update_table_urls:
  "set (map URL (fst (update_table flds))) = (\<lambda>f. strip_fragment (URL f)) ` set flds"
proof -
  let ?rows = "fst (update_table flds)" and ?shown = "snd (update_table flds)"
  have inv: "table_inv flds (update_table flds)" by (rule table_inv_update)
  have len: "length ?shown = length flds" using inv by (simp add: table_inv_def)
  have row: "\<And>i. i < length flds \<Longrightarrow> ?shown ! i < length ?rows \<and>
      URL (?rows ! (?shown ! i)) = strip_fragment (URL (flds ! i))"
    using inv by (simp add: table_inv_def)
  have onto: "\<And>k. k < length ?rows \<Longrightarrow> k \<in> set ?shown"
    using inv by (simp add: table_inv_def)
  show ?thesis
  proof (intro set_eqI iffI)
    fix u assume "u \<in> set (map URL ?rows)"
    then obtain k where k: "k < length ?rows" "u = URL (?rows ! k)"
      by (auto simp: in_set_conv_nth)
    from onto[OF k(1)] obtain i where i: "i < length flds" "?shown ! i = k"
      by (auto simp: in_set_conv_nth len)
    from row[OF i(1)] i(2) k(2) have "u = strip_fragment (URL (flds ! i))" by simp
    then show "u \<in> (\<lambda>f. strip_fragment (URL f)) ` set flds" using i(1) by auto
  next
    fix u assume "u \<in> (\<lambda>f. strip_fragment (URL f)) ` set flds"
    then obtain i where i: "i < length flds" "u = strip_fragment (URL (flds ! i))"
      by (auto simp: in_set_conv_nth)
    from row[OF i(1)] have "?rows ! (?shown ! i) \<in> set ?rows" by (simp add: nth_mem)
    then have "URL (?rows ! (?shown ! i)) \<in> URL ` set ?rows" by (rule imageI)
    then show "u \<in> set (map URL ?rows)" using row[OF i(1)] i(2) by simp
  qed
qed

text \<open>
  Claim C1. After the update of the bibliography table no two rows have the same URL, and
  there are as many rows as the fields have URLs up to the fragment; two fields are shown
  by the same row exactly when their URLs are equal once the fragment is stripped: fields
  whose URLs differ only in the fragment share one row, fields with different base URLs
  have different rows.
\<close>

theorem update_table_dedup:
  assumes "i < length flds" and "j < length flds"
  shows "distinct (map URL (fst (update_table flds))) \<and>
         length (fst (update_table flds)) = card ((\<lambda>f. strip_fragment (URL f)) ` set flds) \<and>
         snd (update_table flds) ! i < length (fst (update_table flds)) \<and>
         snd (update_table flds) ! j < length (fst (update_table flds)) \<and>
         (snd (update_table flds) ! i = snd (update_table flds) ! j
            \<longleftrightarrow> strip_fragment (URL (flds ! i)) = strip_fragment (URL (flds ! j)))"
proof -
  let ?rows = "fst (update_table flds)" and ?shown = "snd (update_table flds)"
  have inv: "table_inv flds (update_table flds)" by (rule table_inv_update)
  have d: "distinct (map URL ?rows)" using inv by (simp add: table_inv_def)
  have ri: "?shown ! i < length ?rows" "URL (?rows ! (?shown ! i)) = strip_fragment (URL (flds ! i))"
    using inv assms(1) by (simp_all add: table_inv_def)
  have rj: "?shown ! j < length ?rows" "URL (?rows ! (?shown ! j)) = strip_fragment (URL (flds ! j))"
    using inv assms(2) by (simp_all add: table_inv_def)
  have n: "length ?rows = card ((\<lambda>f. strip_fragment (URL f)) ` set flds)"
    using distinct_card[OF d] update_table_urls[of flds] by simp
  have eq: "?shown ! i = ?shown ! j
      \<longleftrightarrow> strip_fragment (URL (flds ! i)) = strip_fragment (URL (flds ! j))"
  proof
    assume "?shown ! i = ?shown ! j"
    then show "strip_fragment (URL (flds ! i)) = strip_fragment (URL (flds ! j))"
      using ri(2) rj(2) by simp
  next
    assume "strip_fragment (URL (flds ! i)) = strip_fragment (URL (flds ! j))"
    then have "map URL ?rows ! (?shown ! i) = map URL ?rows ! (?shown ! j)"
      using ri rj by simp
    moreover have "?shown ! i < length (map URL ?rows)" "?shown ! j < length (map URL ?rows)"
      using ri(1) rj(1) by simp_all
    ultimately show "?shown ! i = ?shown ! j"
      using nth_eq_iff_index_eq[OF d] by blast
  qed
  show ?thesis using d n ri(1) rj(1) eq by blast
qed

theorem update_table_dedup_witness:
  "length (fst (update_table bib_ex)) = 2 \<and>
   snd (update_table bib_ex) ! 0 = snd (update_table bib_ex) ! 1 \<and>
   snd (update_table bib_ex) ! 0 \<noteq> snd (update_table bib_ex) ! 2"
proof -
  have l: "0 < length bib_ex" "1 < length bib_ex" "2 < length bib_ex" by code_simp+
  have s: "strip_fragment (URL (bib_ex ! 0)) = strip_fragment (URL (bib_ex ! 1))"
    "strip_fragment (URL (bib_ex ! 0)) \<noteq> strip_fragment (URL (bib_ex ! 2))"
    by code_simp+
  have c: "card ((\<lambda>f. strip_fragment (URL f)) ` set bib_ex) = 2" by code_simp
  show ?thesis
    using update_table_dedup[OF l(1) l(2)] update_table_dedup[OF l(1) l(3)] s c by simp
qed

text \<open>
  Claim C2. The row that shows a field has as its URL the URL of the field with the
  fragment identifier stripped: it holds no \<^verbatim>\<open>#\<close>, and the URL of the field is the URL
  of the row, or the URL of the row followed by \<^verbatim>\<open>#\<close> and a fragment. A URL without
  \<^verbatim>\<open>#\<close> is shown unchanged.
\<close>

theorem update_table_row_url:
  assumes "i < length flds"
  shows "snd (update_table flds) ! i < length (fst (update_table flds)) \<and>
         URL (fst (update_table flds) ! (snd (update_table flds) ! i)) = strip_fragment (URL (flds ! i)) \<and>
         CHR ''#'' \<notin> set (URL (fst (update_table flds) ! (snd (update_table flds) ! i))) \<and>
         (URL (flds ! i) = URL (fst (update_table flds) ! (snd (update_table flds) ! i)) \<or>
          (\<exists>frag. URL (flds ! i)
                     = URL (fst (update_table flds) ! (snd (update_table flds) ! i)) @ CHR ''#'' # frag)) \<and>
         (CHR ''#'' \<notin> set (URL (flds ! i))
            \<longrightarrow> URL (fst (update_table flds) ! (snd (update_table flds) ! i)) = URL (flds ! i))"
proof -
  let ?rows = "fst (update_table flds)" and ?shown = "snd (update_table flds)"
  have inv: "table_inv flds (update_table flds)" by (rule table_inv_update)
  have ri: "?shown ! i < length ?rows" "URL (?rows ! (?shown ! i)) = strip_fragment (URL (flds ! i))"
    using inv assms by (simp_all add: table_inv_def)
  show ?thesis
    unfolding ri(2)
    using ri(1) strip_fragment_no_hash[of "URL (flds ! i)"] strip_fragment_cases[of "URL (flds ! i)"]
      strip_fragment_id[of "URL (flds ! i)"]
    by blast
qed

theorem update_table_row_url_witness:
  "URL (fst (update_table bib_ex) ! (snd (update_table bib_ex) ! 0)) = ''http://www.example.com/test.pdf'' \<and>
   URL (fst (update_table bib_ex) ! (snd (update_table bib_ex) ! 2)) = ''http://www.example.com/test2.pdf''"
proof -
  have l: "0 < length bib_ex" "2 < length bib_ex" by code_simp+
  have s: "strip_fragment (URL (bib_ex ! 0)) = ''http://www.example.com/test.pdf''"
    "strip_fragment (URL (bib_ex ! 2)) = ''http://www.example.com/test2.pdf''"
    by code_simp+
  show ?thesis
    using update_table_row_url[OF l(1)] update_table_row_url[OF l(2)] s by simp
qed

lemma update_table_example:
  "update_table bib_ex =
     ([\<lparr> Identifier = ''AT'', Author = ''Author'', Title = ''Title'', Year = '''',
         URL = ''http://www.example.com/test.pdf'' \<rparr>,
       \<lparr> Identifier = ''AT'', Author = ''Author'', Title = ''Title'', Year = '''',
         URL = ''http://www.example.com/test2.pdf'' \<rparr>], [0, 0, 1])"
  by code_simp

end
